theory Spec2Isabelle
  imports Complex_Main "HOL-Library.Sublist"
begin

section \<open>Tile-layer collision extraction of \<open>LevelService::init\<close>\<close>

text \<open>
  The development embeds the collision-geometry part of \<open>LevelService::init\<close>
  (\<open>src/engine/prefabs/components.h\<close>): the classifier \<open>is_solid\<close>, the edge
  canonicaliser \<open>make_edge\<close>, the collection scan, the adjacency index, the loop walker
  and the material list handed to the physics chain.

  Grid coordinates are C++ \<open>int\<close>. The scan only ever forms \<open>x - 1\<close>, \<open>x + 1\<close>,
  \<open>y - 1\<close> and \<open>y + 1\<close> for \<open>0 \<le> x < size.x\<close> and \<open>0 \<le> y < size.y\<close>, which
  cannot leave the \<open>int\<close> range, so coordinates are modelled as unbounded \<open>int\<close>.
\<close>

subsection \<open>Data model\<close>

text \<open>\<open>ldtk::IntPoint\<close>: the pair \<open>{x, y}\<close>; \<open>fst\<close> is \<open>x\<close>, \<open>snd\<close> is \<open>y\<close>.\<close>

type_synonym IntPoint = "int \<times> int"

text \<open>
  \<open>struct Edge { ldtk::IntPoint a, b; }\<close> with the member-wise \<open>operator==\<close>.
  The selectors are called \<open>edge_a\<close> and \<open>edge_b\<close>.
\<close>

datatype Edge = Edge (edge_a: IntPoint) (edge_b: IntPoint)

text \<open>
  What the code reads of an \<open>ldtk::Layer\<close>: \<open>getGridSize()\<close>, \<open>getCellSize()\<close> and
  \<open>getIntGridVal(x, y).name\<close>. The LDtk loader is not part of the repository, so the
  tag lookup is a field of the layer.
\<close>

record Layer =
  getGridSize :: IntPoint
  getCellSize :: int
  getIntGridVal_name :: "int \<Rightarrow> int \<Rightarrow> string"

subsection \<open>\<open>make_edge\<close>\<close>

text \<open>
  The lambda \<open>make_edge\<close>: swap the end points when \<open>p1\<close> is lexicographically below
  \<open>p0\<close>, then build the edge.
\<close>

definition make_edge :: "IntPoint \<Rightarrow> IntPoint \<Rightarrow> Edge" where
  "make_edge p0 p1 =
     (if fst p1 < fst p0 \<or> (fst p1 = fst p0 \<and> snd p1 < snd p0)
      then Edge p1 p0 else Edge p0 p1)"

text \<open>The lexicographic order on points that the test in \<open>make_edge\<close> encodes.\<close>

definition point_le :: "IntPoint \<Rightarrow> IntPoint \<Rightarrow> bool" where
  "point_le p q = (fst p < fst q \<or> (fst p = fst q \<and> snd p \<le> snd q))"

subsection \<open>\<open>is_solid\<close>\<close>

text \<open>
  \<open>std::find(first, last, value)\<close> on a vector: the position of the first element equal
  to \<open>value\<close>, or the length of the vector (\<open>end()\<close>) when there is none.
\<close>

fun std_find :: "'a list \<Rightarrow> 'a \<Rightarrow> nat" where
  "std_find [] v = 0"
| "std_find (x # xs) v = (if x = v then 0 else Suc (std_find xs v))"

definition is_solid :: "string list \<Rightarrow> Layer \<Rightarrow> int \<Rightarrow> int \<Rightarrow> IntPoint \<Rightarrow> bool" where
  "is_solid collision_names layer x y sz =
     (if x < 0 \<or> y < 0 \<or> x \<ge> fst sz \<or> y \<ge> snd sz then False
      else let name = getIntGridVal_name layer x y in
        if std_find collision_names name \<noteq> length collision_names then True
        else False)"

subsection \<open>Edge collection\<close>

text \<open>
  \<open>std::unordered_set<Edge, EdgeHash> edges\<close> is modelled as the list of its elements, each
  once, in iteration order. \<open>insert\<close> leaves a set that holds the element unchanged.
  Where a new element lands in the iteration order is not fixed by the standard; the model
  appends it, and every property of the walking phase below is stated for an arbitrary
  order of the collected elements (\<open>iteration_order\<close>).
\<close>

definition set_insert :: "Edge \<Rightarrow> Edge list \<Rightarrow> Edge list" where
  "set_insert e edges = (if e \<in> set edges then edges else edges @ [e])"

text \<open>The body of the inner \<open>for x\<close> loop of the collection scan, at the cell \<open>(x, y)\<close>.\<close>

definition collect_cell :: "string list \<Rightarrow> Layer \<Rightarrow> IntPoint \<Rightarrow> int \<Rightarrow> int \<Rightarrow> Edge list \<Rightarrow> Edge list" where
  "collect_cell cn layer sz y x edges =
     (if \<not> is_solid cn layer x y sz then edges
      else
        let edges = (if \<not> is_solid cn layer x (y - 1) sz
                     then set_insert (make_edge (x, y) (x + 1, y)) edges else edges);
            edges = (if \<not> is_solid cn layer x (y + 1) sz
                     then set_insert (make_edge (x, y + 1) (x + 1, y + 1)) edges else edges);
            edges = (if \<not> is_solid cn layer (x - 1) y sz
                     then set_insert (make_edge (x, y) (x, y + 1)) edges else edges);
            edges = (if \<not> is_solid cn layer (x + 1) y sz
                     then set_insert (make_edge (x + 1, y) (x + 1, y + 1)) edges else edges)
        in edges)"

text \<open>The inner loop \<open>for (int x = 0; x < size.x; x++)\<close> and the outer loop over \<open>y\<close>.\<close>

definition collect_row :: "string list \<Rightarrow> Layer \<Rightarrow> IntPoint \<Rightarrow> int \<Rightarrow> Edge list \<Rightarrow> Edge list" where
  "collect_row cn layer sz y edges = fold (collect_cell cn layer sz y) [0..fst sz - 1] edges"

definition collect_edges :: "string list \<Rightarrow> Layer \<Rightarrow> Edge list" where
  "collect_edges cn layer =
     (let sz = getGridSize layer in fold (collect_row cn layer sz) [0..snd sz - 1] [])"

text \<open>
  The vocabulary of the collection properties: the four sides of a cell, the cell across
  a side, the unit segment along a side, and the sides of solid cells whose neighbour is
  not solid (out of range included, by \<open>is_solid\<close>).
\<close>

datatype Side = SideUp | SideDown | SideLeft | SideRight

fun neighbor :: "IntPoint \<Rightarrow> Side \<Rightarrow> IntPoint" where
  "neighbor (x, y) SideUp = (x, y - 1)"
| "neighbor (x, y) SideDown = (x, y + 1)"
| "neighbor (x, y) SideLeft = (x - 1, y)"
| "neighbor (x, y) SideRight = (x + 1, y)"

fun side_segment :: "IntPoint \<Rightarrow> Side \<Rightarrow> Edge" where
  "side_segment (x, y) SideUp = Edge (x, y) (x + 1, y)"
| "side_segment (x, y) SideDown = Edge (x, y + 1) (x + 1, y + 1)"
| "side_segment (x, y) SideLeft = Edge (x, y) (x, y + 1)"
| "side_segment (x, y) SideRight = Edge (x + 1, y) (x + 1, y + 1)"

definition solid_cell :: "string list \<Rightarrow> Layer \<Rightarrow> IntPoint \<Rightarrow> bool" where
  "solid_cell cn layer c = is_solid cn layer (fst c) (snd c) (getGridSize layer)"

definition boundary_sides :: "string list \<Rightarrow> Layer \<Rightarrow> (IntPoint \<times> Side) set" where
  "boundary_sides cn layer =
     {(c, s). solid_cell cn layer c \<and> \<not> solid_cell cn layer (neighbor c s)}"

text \<open>
  A unit segment runs from a grid corner one step right or one step down. The two cells
  it separates are the ones above and below a horizontal segment, left and right of a
  vertical one. A boundary segment has exactly one of them solid.
\<close>

definition is_unit_segment :: "Edge \<Rightarrow> bool" where
  "is_unit_segment e =
     (edge_b e = (fst (edge_a e) + 1, snd (edge_a e)) \<or>
      edge_b e = (fst (edge_a e), snd (edge_a e) + 1))"

definition adjoining_cells :: "Edge \<Rightarrow> IntPoint \<times> IntPoint" where
  "adjoining_cells e =
     (if snd (edge_b e) = snd (edge_a e)
      then ((fst (edge_a e), snd (edge_a e) - 1), edge_a e)
      else ((fst (edge_a e) - 1, snd (edge_a e)), edge_a e))"

definition boundary_segment :: "string list \<Rightarrow> Layer \<Rightarrow> Edge \<Rightarrow> bool" where
  "boundary_segment cn layer e =
     (is_unit_segment e \<and>
      solid_cell cn layer (fst (adjoining_cells e)) \<noteq> solid_cell cn layer (snd (adjoining_cells e)))"

text \<open>The segments that the scan inserts at one cell.\<close>

definition cell_sides :: "string list \<Rightarrow> Layer \<Rightarrow> IntPoint \<Rightarrow> Edge set" where
  "cell_sides cn layer c =
     {side_segment c s | s. solid_cell cn layer c \<and> \<not> solid_cell cn layer (neighbor c s)}"

subsection \<open>Adjacency index and loop walker\<close>

text \<open>
  \<open>std::unordered_map<ldtk::IntPoint, std::vector<ldtk::IntPoint>, IntPointHash> adj\<close>.
  \<open>adj[p]\<close> on an absent key yields an empty vector, so the map is a total function with
  default \<open>[]\<close>. The index is filled by one pass over \<open>edges\<close> in iteration order.
\<close>

type_synonym AdjMap = "IntPoint \<Rightarrow> IntPoint list"

definition adj_push_back :: "AdjMap \<Rightarrow> IntPoint \<Rightarrow> IntPoint \<Rightarrow> AdjMap" where
  "adj_push_back adj k v = adj (k := adj k @ [v])"

definition build_adj :: "Edge list \<Rightarrow> AdjMap" where
  "build_adj edges =
     fold (\<lambda>e adj. adj_push_back (adj_push_back adj (edge_a e) (edge_b e)) (edge_b e) (edge_a e))
       edges (\<lambda>_. [])"

text \<open>
  The lambda \<open>erase_edge\<close>: \<open>edges.erase(make_edge(p0, p1))\<close>. Erasing keeps the
  relative order of the other elements.
\<close>

definition erase_edge :: "Edge list \<Rightarrow> IntPoint \<Rightarrow> IntPoint \<Rightarrow> Edge list" where
  "erase_edge edges p0 p1 = removeAll (make_edge p0 p1) edges"

text \<open>
  The \<open>for (cand : nbs)\<close> loop of the walker: the first neighbour that is not \<open>prev\<close>
  and whose edge to \<open>cur\<close> is still in \<open>edges\<close>; \<open>None\<close> is \<open>found == false\<close>.
\<close>

fun find_next :: "Edge list \<Rightarrow> IntPoint \<Rightarrow> IntPoint \<Rightarrow> IntPoint list \<Rightarrow> IntPoint option" where
  "find_next edges prev cur [] = None"
| "find_next edges prev cur (cand # nbs) =
     (if cand = prev then find_next edges prev cur nbs
      else if make_edge cur cand \<in> set edges then Some cand
      else find_next edges prev cur nbs)"

text \<open>
  The inner \<open>while (!(cur == start))\<close> loop. It returns the remaining edges and the
  chain \<open>poly\<close>; the three \<open>Some\<close> exits are the loop condition, the \<open>!found\<close> break
  and the \<open>poly.size() > 100000\<close> break. \<open>None\<close> would be a loop that never exits.
\<close>

partial_function (option) walk ::
  "AdjMap \<Rightarrow> Edge list \<Rightarrow> IntPoint \<Rightarrow> IntPoint \<Rightarrow> IntPoint \<Rightarrow> IntPoint list
     \<Rightarrow> (Edge list \<times> IntPoint list) option" where
  "walk adj edges start prev cur poly =
     (if cur = start then Some (edges, poly)
      else case find_next edges prev cur (adj cur) of
        None \<Rightarrow> Some (edges, poly)
      | Some next \<Rightarrow>
          let poly' = poly @ [next];
              edges' = erase_edge edges cur next
          in if length poly' > 100000 then Some (edges', poly')
             else walk adj edges' start cur next poly')"

text \<open>
  After the walk: \<open>if (!poly.empty() && poly.back() == poly.front()) poly.pop_back()\<close>.
\<close>

definition close_chain :: "IntPoint list \<Rightarrow> IntPoint list" where
  "close_chain poly = (if poly \<noteq> [] \<and> last poly = hd poly then butlast poly else poly)"

text \<open>
  \<open>if (!loop_has_solid_on_right(poly, layer)) std::reverse(poly.begin(), poly.end())\<close>.
  The test \<open>loop_has_solid_on_right\<close> is computed in single-precision floating point
  (\<open>std::sqrt\<close>, division, \<open>std::floor\<close>); it reads the loop, the layer and the
  fields \<open>scale\<close> and \<open>collision_names\<close> of the service and changes nothing, so it
  enters the model as a function from the loop to \<open>bool\<close>, and every property below holds
  for every such function.
\<close>

definition resolve_winding :: "(IntPoint list \<Rightarrow> bool) \<Rightarrow> IntPoint list \<Rightarrow> IntPoint list" where
  "resolve_winding loop_has_solid_on_right poly = (if \<not> loop_has_solid_on_right poly then rev poly else poly)"

text \<open>
  \<open>if (poly.size() >= 3) { ...; loops.push_back(std::move(poly)); }\<close> applied to the
  chain after \<open>close_chain\<close>.
\<close>

definition keep_chain ::
  "(IntPoint list \<Rightarrow> bool) \<Rightarrow> IntPoint list \<Rightarrow> IntPoint list list \<Rightarrow> IntPoint list list" where
  "keep_chain loop_has_solid_on_right poly loops =
     (let poly = close_chain poly in
      if length poly \<ge> 3 then loops @ [resolve_winding loop_has_solid_on_right poly] else loops)"

text \<open>
  The outer \<open>while (!edges.empty())\<close> loop: \<open>*edges.begin()\<close> is the head of the
  list.
\<close>

partial_function (option) walk_loops ::
  "(IntPoint list \<Rightarrow> bool) \<Rightarrow> AdjMap \<Rightarrow> Edge list \<Rightarrow> IntPoint list list
     \<Rightarrow> IntPoint list list option" where
  "walk_loops loop_has_solid_on_right adj edges loops =
     (case edges of
        [] \<Rightarrow> Some loops
      | startE # _ \<Rightarrow>
          let start = edge_a startE; cur = edge_b startE; prev = start in
          (case walk adj (erase_edge edges start cur) start prev cur [start, cur] of
             None \<Rightarrow> None
           | Some (edges', poly) \<Rightarrow>
               walk_loops loop_has_solid_on_right adj edges'
                 (keep_chain loop_has_solid_on_right poly loops)))"

text \<open>
  The walking phase of one layer, from the edge set in the iteration order \<open>edges\<close>.
\<close>

definition layer_loops :: "(IntPoint list \<Rightarrow> bool) \<Rightarrow> Edge list \<Rightarrow> IntPoint list list option" where
  "layer_loops loop_has_solid_on_right edges = walk_loops loop_has_solid_on_right (build_adj edges) edges []"


text \<open>
  An iteration order of the collected edge set: the elements of \<open>collect_edges\<close>, each
  once, in any order.
\<close>

definition iteration_order :: "string list \<Rightarrow> Layer \<Rightarrow> Edge list \<Rightarrow> bool" where
  "iteration_order cn layer edges =
     (distinct edges \<and> set edges = set (collect_edges cn layer))"

text \<open>
  The vocabulary of the walker properties: the edges between consecutive vertices of a
  chain, the same with the wrap from the last vertex to the first, edges in the form
  \<open>make_edge\<close> returns, a unit step between two corners, and the number of edges of a set
  at a corner.
\<close>

fun chain_edges :: "IntPoint list \<Rightarrow> Edge list" where
  "chain_edges (p # q # ps) = make_edge p q # chain_edges (q # ps)"
| "chain_edges ps = []"

definition loop_edges :: "IntPoint list \<Rightarrow> Edge list" where
  "loop_edges l = (if l = [] then [] else chain_edges (l @ [hd l]))"

definition canonical :: "Edge \<Rightarrow> bool" where
  "canonical e = (make_edge (edge_a e) (edge_b e) = e)"

definition unit_step :: "IntPoint \<Rightarrow> IntPoint \<Rightarrow> bool" where
  "unit_step p q =
     (\<bar>fst p - fst q\<bar> = 1 \<and> snd p = snd q \<or> fst p = fst q \<and> \<bar>snd p - snd q\<bar> = 1)"

text \<open>A proper edge is canonical and joins two different corners.\<close>

definition proper :: "Edge \<Rightarrow> bool" where
  "proper e = (canonical e \<and> edge_a e \<noteq> edge_b e)"

text \<open>No two chains of a list share an edge, for the edges \<open>f\<close> reads off a chain.\<close>

definition edge_disjoint :: "(IntPoint list \<Rightarrow> Edge list) \<Rightarrow> IntPoint list list \<Rightarrow> bool" where
  "edge_disjoint f ls =
     (\<forall>i j. i < j \<and> j < length ls \<longrightarrow> set (f (ls ! i)) \<inter> set (f (ls ! j)) = {})"

definition degree :: "Edge list \<Rightarrow> IntPoint \<Rightarrow> nat" where
  "degree edges v = length (filter (\<lambda>e. edge_a e = v \<or> edge_b e = v) edges)"

text \<open>
  A path the walker has to follow from \<open>cur\<close>: at every corner before the last, the next
  corner of the path is the only one that is not \<open>prev\<close> and has a live edge to \<open>cur\<close>.
\<close>

fun forced :: "Edge set \<Rightarrow> IntPoint \<Rightarrow> IntPoint \<Rightarrow> IntPoint \<Rightarrow> IntPoint list \<Rightarrow> bool" where
  "forced E start prev cur [] = True"
| "forced E start prev cur (n # path) =
     (cur \<noteq> start \<and> n \<noteq> prev \<and> make_edge cur n \<in> E
      \<and> (\<forall>u. u \<noteq> prev \<and> make_edge cur u \<in> E \<longrightarrow> u = n)
      \<and> forced (E - {make_edge cur n}) start cur n path)"

subsection \<open>Example layers\<close>

text \<open>
  A 3 by 3 layer with every cell tagged \<open>wall\<close>, and a 2 by 2 layer whose two solid cells
  \<open>(0, 0)\<close> and \<open>(1, 1)\<close> touch only at the corner \<open>(1, 1)\<close>.
\<close>

definition block3 :: Layer where
  "block3 = \<lparr>getGridSize = (3, 3), getCellSize = 16, getIntGridVal_name = (\<lambda>x y. ''wall'')\<rparr>"

definition checker :: Layer where
  "checker = \<lparr>getGridSize = (2, 2), getCellSize = 16,
     getIntGridVal_name = (\<lambda>x y. if x = y then ''wall'' else '''')\<rparr>"

text \<open>
  A layer of one row of 100000 solid cells, and the chain of the 100001 corners along the
  top of that row.
\<close>

definition strip_width :: int where
  "strip_width = 100000"

definition strip :: Layer where
  "strip = \<lparr>getGridSize = (strip_width, 1), getCellSize = 16,
     getIntGridVal_name = (\<lambda>x y. ''wall'')\<rparr>"

definition strip_chain :: "IntPoint list" where
  "strip_chain = map (\<lambda>i. (i, 0)) [0..strip_width]"

text \<open>
  The boundary of the 3 by 3 block at the origin: its twelve corners in walking order, and
  the rotations of a list. \<open>neighbours\<close> and \<open>forced_list\<close> are \<open>forced\<close> on an edge list,
  so that a path can be checked by evaluation; \<open>follow\<close> reads off a cycle the path that
  starts with the step from \<open>p\<close> to \<open>q\<close>, and \<open>block_check\<close> is what the walk from
  one edge of the block has to satisfy.
\<close>

definition block_cycle :: "IntPoint list" where
  "block_cycle = [(0, 0), (1, 0), (2, 0), (3, 0), (3, 1), (3, 2), (3, 3), (2, 3), (1, 3), (0, 3),
     (0, 2), (0, 1)]"

definition rotations :: "'a list \<Rightarrow> 'a list list" where
  "rotations xs = map (\<lambda>n. rotate n xs) [0..<length xs]"

definition neighbours :: "Edge list \<Rightarrow> IntPoint \<Rightarrow> IntPoint list" where
  "neighbours es v =
     map edge_b (filter (\<lambda>e. edge_a e = v) es) @ map edge_a (filter (\<lambda>e. edge_b e = v) es)"

fun forced_list :: "Edge list \<Rightarrow> IntPoint \<Rightarrow> IntPoint \<Rightarrow> IntPoint \<Rightarrow> IntPoint list \<Rightarrow> bool" where
  "forced_list es start prev cur [] = True"
| "forced_list es start prev cur (n # path) =
     (cur \<noteq> start \<and> n \<noteq> prev \<and> make_edge cur n \<in> set es
      \<and> list_all (\<lambda>u. u = prev \<or> u = n) (neighbours es cur)
      \<and> forced_list (removeAll (make_edge cur n) es) start cur n path)"

definition follow :: "IntPoint list \<Rightarrow> IntPoint \<Rightarrow> IntPoint \<Rightarrow> IntPoint list" where
  "follow cyc p q =
     (let n = length cyc; i = std_find cyc p in
      if cyc ! ((i + 1) mod n) = q
      then map (\<lambda>k. cyc ! ((i + k) mod n)) [2..<n + 1]
      else map (\<lambda>k. cyc ! ((i + (n - 1) * k) mod n)) [2..<n + 1])"

definition block_check :: "Edge \<Rightarrow> bool" where
  "block_check e =
     (let es = collect_edges [''wall''] block3;
          p = follow block_cycle (edge_a e) (edge_b e);
          l = butlast (edge_a e # edge_b e # p);
          R = rotations block_cycle @ rotations (rev block_cycle)
      in forced_list (removeAll e es) (edge_a e) (edge_a e) (edge_b e) p
         \<and> p \<noteq> [] \<and> last p = edge_a e \<and> length p = 11
         \<and> list_all (\<lambda>x. x \<in> set (chain_edges (edge_b e # p))) (removeAll e es)
         \<and> l \<in> set R \<and> rev l \<in> set R)"

subsection \<open>Chain emission\<close>

text \<open>
  \<open>b2SurfaceMaterial\<close> of Box2D: the two fields the code assigns; the others are the
  extension of the record. The fields are C++ \<open>float\<close>; the only values the code stores
  in them are the literals \<open>0.1f\<close>, modelled as the number one tenth.
\<close>

record b2SurfaceMaterial =
  friction :: real
  restitution :: real

text \<open>The fields of \<open>b2ChainDef\<close> that the code sets.\<close>

record ('v, 'm) b2ChainDef =
  points :: "'v list"
  count :: int
  materials :: "'m list"
  materialCount :: int
  isLoop :: bool

text \<open>The cast \<open>(int)\<close> of a \<open>size_t\<close>: the value modulo \<open>2^32\<close>, read as signed.\<close>

definition int_cast :: "nat \<Rightarrow> int" where
  "int_cast n = (int n + 2 ^ 31) mod 2 ^ 32 - 2 ^ 31"

text \<open>
  The body of \<open>for (auto& loop : loops)\<close> up to the chain definition. The conversion of a
  grid corner to world units (\<open>p.x * layer.getCellSize() * scale\<close> and
  \<open>convert_to_meters\<close>, in floating point) and \<open>b2DefaultSurfaceMaterial()\<close> of Box2D are
  parameters.
\<close>

definition make_chain ::
  "(IntPoint \<Rightarrow> 'v) \<Rightarrow> 'm b2SurfaceMaterial_scheme \<Rightarrow> IntPoint list
     \<Rightarrow> ('v, 'm b2SurfaceMaterial_scheme) b2ChainDef" where
  "make_chain world_point b2DefaultSurfaceMaterial loop =
     (let verts = fold (\<lambda>p verts. verts @ [world_point p]) loop [];
          mats = fold (\<lambda>i mats.
                   let mat = b2DefaultSurfaceMaterial;
                       mat = mat\<lparr>friction := 0.1\<rparr>;
                       mat = mat\<lparr>restitution := 0.1\<rparr>
                   in mats @ [mat]) [0..<length verts] []
      in \<lparr>points = verts, count = int_cast (length verts),
          materials = mats, materialCount = int_cast (length mats), isLoop = True\<rparr>)"

section \<open>Properties\<close>

subsection \<open>Canonical edges\<close>

lemma make_edge_commute: "make_edge p q = make_edge q p"
  by (cases p; cases q) (auto simp: make_edge_def)

lemma make_edge_ordered: "point_le (edge_a (make_edge p q)) (edge_b (make_edge p q))"
  by (cases p; cases q) (auto simp: make_edge_def point_le_def)

text \<open>
  Claim C8. Building an edge from \<open>(p, q)\<close> and from \<open>(q, p)\<close> gives the same value, its
  first end point is the lexicographically smaller one, and its end points are the two
  points given.
\<close>

theorem C8_make_edge_canonical:
  "make_edge p q = make_edge q p
   \<and> point_le (edge_a (make_edge p q)) (edge_b (make_edge p q))
   \<and> {edge_a (make_edge p q), edge_b (make_edge p q)} = {p, q}"
  using make_edge_commute [of p q] make_edge_ordered [of p q]
  by (auto simp: make_edge_def)

subsection \<open>The classifier\<close>

lemma std_find_end: "(std_find xs v \<noteq> length xs) = (v \<in> set xs)"
  by (induction xs) auto

lemma std_find_le: "std_find xs v \<le> length xs"
  by (induction xs) auto

lemma std_find_first:
  "v \<in> set xs \<Longrightarrow> xs ! std_find xs v = v \<and> v \<notin> set (take (std_find xs v) xs)"
  by (induction xs) auto

lemma is_solid_iff:
  "is_solid cn layer x y sz =
     (0 \<le> x \<and> 0 \<le> y \<and> x < fst sz \<and> y < snd sz \<and> getIntGridVal_name layer x y \<in> set cn)"
  by (auto simp: is_solid_def Let_def std_find_end)

text \<open>
  Claim C4. \<open>is_solid\<close> is false at every cell outside the grid bounds, and at a cell
  inside them it is true exactly when the cell's tag name is an element of the collision
  names. It is a function of its arguments alone.
\<close>

theorem C4_is_solid:
  "is_solid cn layer x y sz =
     (\<not> (x < 0 \<or> y < 0 \<or> x \<ge> fst sz \<or> y \<ge> snd sz)
      \<and> (\<exists>i < length cn. cn ! i = getIntGridVal_name layer x y))"
  by (auto simp: is_solid_iff in_set_conv_nth)

subsection \<open>Edge collection\<close>

lemma set_set_insert [simp]: "set (set_insert e es) = insert e (set es)"
  by (auto simp: set_insert_def)

lemma distinct_set_insert [simp]: "distinct (set_insert e es) = distinct es"
  by (auto simp: set_insert_def)

lemma make_edge_right [simp]: "make_edge (x, y) (x + 1, y') = Edge (x, y) (x + 1, y')"
  by (simp add: make_edge_def)

lemma make_edge_down [simp]: "make_edge (x, y) (x, y + 1) = Edge (x, y) (x, y + 1)"
  by (simp add: make_edge_def)

lemma Side_ex: "(\<exists>s. P s) = (P SideUp \<or> P SideDown \<or> P SideLeft \<or> P SideRight)"
  by (metis Side.exhaust)

lemma set_collect_cell:
  "set (collect_cell cn layer (getGridSize layer) y x es) = set es \<union> cell_sides cn layer (x, y)"
  unfolding collect_cell_def cell_sides_def solid_cell_def Let_def
  by (auto simp: Side_ex)

lemma distinct_collect_cell:
  "distinct (collect_cell cn layer sz y x es) = distinct es"
  unfolding collect_cell_def Let_def by simp

lemma set_collect_row_aux:
  "set (fold (collect_cell cn layer (getGridSize layer) y) xs es)
     = set es \<union> (\<Union>x\<in>set xs. cell_sides cn layer (x, y))"
  by (induction xs arbitrary: es) (auto simp: set_collect_cell)

lemma distinct_collect_row_aux:
  "distinct (fold (collect_cell cn layer sz y) xs es) = distinct es"
  by (induction xs arbitrary: es) (auto simp: distinct_collect_cell)

lemma set_collect_rows_aux:
  "set (fold (collect_row cn layer (getGridSize layer)) ys es)
     = set es \<union> (\<Union>y\<in>set ys. \<Union>x\<in>{0..fst (getGridSize layer) - 1}. cell_sides cn layer (x, y))"
  by (induction ys arbitrary: es) (auto simp: collect_row_def set_collect_row_aux)

lemma distinct_collect_rows_aux:
  "distinct (fold (collect_row cn layer sz) ys es) = distinct es"
  by (induction ys arbitrary: es) (auto simp: collect_row_def distinct_collect_row_aux)

lemma distinct_collect_edges: "distinct (collect_edges cn layer)"
  by (simp add: collect_edges_def Let_def distinct_collect_rows_aux)

lemma cell_sides_empty:
  "\<not> solid_cell cn layer c \<Longrightarrow> cell_sides cn layer c = {}"
  by (auto simp: cell_sides_def)

lemma solid_cell_range:
  "solid_cell cn layer (x, y) \<Longrightarrow>
     0 \<le> x \<and> x \<le> fst (getGridSize layer) - 1 \<and> 0 \<le> y \<and> y \<le> snd (getGridSize layer) - 1"
  by (auto simp: solid_cell_def is_solid_iff)

lemma set_collect_edges:
  "set (collect_edges cn layer) = (\<lambda>(c, s). side_segment c s) ` boundary_sides cn layer"
proof -
  have "set (collect_edges cn layer) = (\<Union>c. cell_sides cn layer c)"
  proof -
    have "(\<Union>c. cell_sides cn layer c) =
        (\<Union>y\<in>{0..snd (getGridSize layer) - 1}. \<Union>x\<in>{0..fst (getGridSize layer) - 1}. cell_sides cn layer (x, y))"
      (is "?L = ?R")
    proof
      show "?L \<subseteq> ?R"
      proof
        fix e assume "e \<in> ?L"
        then obtain x y where e: "e \<in> cell_sides cn layer (x, y)" by auto
        then have "solid_cell cn layer (x, y)" using cell_sides_empty by blast
        from solid_cell_range [OF this] e show "e \<in> ?R" by force
      qed
      show "?R \<subseteq> ?L" by auto
    qed
    then show ?thesis
      by (simp add: collect_edges_def Let_def set_collect_rows_aux)
  qed
  also have "\<dots> = (\<lambda>(c, s). side_segment c s) ` boundary_sides cn layer"
    by (auto simp: cell_sides_def boundary_sides_def)
  finally show ?thesis .
qed

lemma inj_on_side_segment:
  "inj_on (\<lambda>(c, s). side_segment c s) (boundary_sides cn layer)"
proof (rule inj_onI, clarify)
  fix x y s x' y' s'
  assume 1: "((x, y), s) \<in> boundary_sides cn layer"
     and 2: "((x', y'), s') \<in> boundary_sides cn layer"
     and eq: "side_segment (x, y) s = side_segment (x', y') s'"
  from 1 2 eq show "(x, y) = (x', y') \<and> s = s'"
    by (cases s; cases s') (auto simp: boundary_sides_def)
qed

lemma boundary_segment_iff:
  "boundary_segment cn layer e = (e \<in> (\<lambda>(c, s). side_segment c s) ` boundary_sides cn layer)"
proof
  assume bs: "boundary_segment cn layer e"
  obtain x y q where e: "e = Edge (x, y) q" by (cases e) auto
  from bs e have "q = (x + 1, y) \<or> q = (x, y + 1)"
    by (auto simp: boundary_segment_def is_unit_segment_def)
  then show "e \<in> (\<lambda>(c, s). side_segment c s) ` boundary_sides cn layer"
  proof
    assume q: "q = (x + 1, y)"
    with bs e have d: "solid_cell cn layer (x, y - 1) \<noteq> solid_cell cn layer (x, y)"
      by (simp add: boundary_segment_def adjoining_cells_def)
    show ?thesis
    proof (cases "solid_cell cn layer (x, y)")
      case True
      with d have "((x, y), SideUp) \<in> boundary_sides cn layer"
        by (simp add: boundary_sides_def)
      then show ?thesis using e q by force
    next
      case False
      with d have "((x, y - 1), SideDown) \<in> boundary_sides cn layer"
        by (simp add: boundary_sides_def)
      then show ?thesis using e q by force
    qed
  next
    assume q: "q = (x, y + 1)"
    with bs e have d: "solid_cell cn layer (x - 1, y) \<noteq> solid_cell cn layer (x, y)"
      by (simp add: boundary_segment_def adjoining_cells_def)
    show ?thesis
    proof (cases "solid_cell cn layer (x, y)")
      case True
      with d have "((x, y), SideLeft) \<in> boundary_sides cn layer"
        by (simp add: boundary_sides_def)
      then show ?thesis using e q by force
    next
      case False
      with d have "((x - 1, y), SideRight) \<in> boundary_sides cn layer"
        by (simp add: boundary_sides_def)
      then show ?thesis using e q by force
    qed
  qed
next
  assume "e \<in> (\<lambda>(c, s). side_segment c s) ` boundary_sides cn layer"
  then obtain x y s where m: "((x, y), s) \<in> boundary_sides cn layer"
    and e: "e = side_segment (x, y) s" by auto
  then show "boundary_segment cn layer e"
    by (cases s)
      (auto simp: boundary_sides_def boundary_segment_def is_unit_segment_def adjoining_cells_def)
qed

lemma finite_boundary_sides: "finite (boundary_sides cn layer)"
proof -
  have "boundary_sides cn layer \<subseteq>
      ({0..fst (getGridSize layer) - 1} \<times> {0..snd (getGridSize layer) - 1}) \<times> UNIV"
    using solid_cell_range by (auto simp: boundary_sides_def)
  moreover have "finite (UNIV :: Side set)"
  proof -
    have "(UNIV :: Side set) = {SideUp, SideDown, SideLeft, SideRight}"
      using Side.exhaust by auto
    then show ?thesis by (metis finite.emptyI finite.insertI)
  qed
  ultimately show ?thesis
    by (meson finite_SigmaI finite_atLeastAtMost_int finite_subset)
qed

text \<open>
  Claim C3. After the collection scan the edge set holds every element once, its size is
  the number of sides of solid cells whose neighbour across the side is not solid or out
  of range, distinct such sides give distinct segments, and its members are exactly the
  unit segments with one solid and one non-solid (or out of range) adjoining cell.
\<close>

theorem C3_collect_edges:
  "distinct (collect_edges cn layer)
   \<and> length (collect_edges cn layer) = card (boundary_sides cn layer)
   \<and> set (collect_edges cn layer) = (\<lambda>(c, s). side_segment c s) ` boundary_sides cn layer
   \<and> inj_on (\<lambda>(c, s). side_segment c s) (boundary_sides cn layer)
   \<and> set (collect_edges cn layer) = {e. boundary_segment cn layer e}"
proof -
  have "length (collect_edges cn layer) = card (set (collect_edges cn layer))"
    using distinct_collect_edges by (simp add: distinct_card)
  also have "\<dots> = card (boundary_sides cn layer)"
    by (simp add: set_collect_edges card_image inj_on_side_segment)
  finally show ?thesis
    using distinct_collect_edges set_collect_edges inj_on_side_segment boundary_segment_iff
    by auto
qed

subsection \<open>The walker returns\<close>

lemma find_next_Some:
  "find_next es prev cur nbs = Some n \<Longrightarrow>
     n \<in> set nbs \<and> n \<noteq> prev \<and> make_edge cur n \<in> set es"
  by (induction nbs) (auto split: if_splits)

lemma find_next_None:
  "(find_next es prev cur nbs = None) =
     (\<forall>c \<in> set nbs. c = prev \<or> make_edge cur c \<notin> set es)"
  by (induction nbs) auto

lemma set_erase_edge [simp]: "set (erase_edge es p q) = set es - {make_edge p q}"
  by (auto simp: erase_edge_def)

lemma distinct_erase_edge: "distinct es \<Longrightarrow> distinct (erase_edge es p q)"
  by (simp add: erase_edge_def distinct_removeAll)

lemma length_erase_edge:
  "make_edge p q \<in> set es \<Longrightarrow> length (erase_edge es p q) < length es"
  unfolding erase_edge_def
  by (metis length_removeAll_less)

lemma length_erase_edge_le: "length (erase_edge es p q) \<le> length es"
  by (simp add: erase_edge_def removeAll_filter_not_eq)

lemma walk_returns: "\<exists>r. walk adj es start prev cur poly = Some r"
proof (induction "length es" arbitrary: es prev cur poly rule: less_induct)
  case less
  show ?case
  proof (cases "find_next es prev cur (adj cur)")
    case None
    then show ?thesis by (subst walk.simps) simp
  next
    case (Some n)
    then have "length (erase_edge es cur n) < length es"
      using find_next_Some length_erase_edge by blast
    from less [OF this] obtain r where
      "walk adj (erase_edge es cur n) start cur n (poly @ [n]) = Some r" by blast
    with Some show ?thesis by (subst walk.simps) (simp add: Let_def)
  qed
qed

lemma walk_invariant:
  assumes w: "walk adj es start prev cur poly = Some r"
    and i: "I es prev cur poly"
    and step: "\<And>es prev cur poly n. I es prev cur poly \<Longrightarrow> cur \<noteq> start \<Longrightarrow>
        find_next es prev cur (adj cur) = Some n \<Longrightarrow>
        I (erase_edge es cur n) cur n (poly @ [n])"
  shows "\<exists>prev' cur'. I (fst r) prev' cur' (snd r) \<and>
           (cur' = start \<or> find_next (fst r) prev' cur' (adj cur') = None
            \<or> length (snd r) > 100000)"
proof -
  have "adj = adj \<longrightarrow> start = start \<longrightarrow> I es prev cur poly \<longrightarrow>
      (\<exists>prev' cur'. I (fst r) prev' cur' (snd r) \<and>
           (cur' = start \<or> find_next (fst r) prev' cur' (adj cur') = None
            \<or> length (snd r) > 100000))"
  proof (rule walk.raw_induct [where P = "\<lambda>a e s p c po r. a = adj \<longrightarrow> s = start \<longrightarrow> I e p c po \<longrightarrow>
      (\<exists>prev' cur'. I (fst r) prev' cur' (snd r) \<and>
           (cur' = start \<or> find_next (fst r) prev' cur' (adj cur') = None
            \<or> length (snd r) > 100000))", OF _ w], goal_cases)
    case (1 wk a e s p c po r')
    show ?case
    proof (intro impI)
      assume a: "a = adj" and s: "s = start" and inv: "I e p c po"
      show "\<exists>prev' cur'. I (fst r') prev' cur' (snd r') \<and>
           (cur' = start \<or> find_next (fst r') prev' cur' (adj cur') = None
            \<or> length (snd r') > 100000)"
      proof (cases "c = start")
        case True
        with 1(2) s inv show ?thesis
          by (intro exI [of _ p] exI [of _ c]) auto
      next
        case ns: False
        show ?thesis
        proof (cases "find_next e p c (adj c)")
          case None
          with 1(2) ns s a inv show ?thesis
            by (intro exI [of _ p] exI [of _ c]) auto
        next
          case (Some n)
          have inv': "I (erase_edge e c n) c n (po @ [n])"
            using step [OF inv ns Some] .
          show ?thesis
          proof (cases "100000 < length (po @ [n])")
            case True
            with 1(2) ns s a Some have "r' = (erase_edge e c n, po @ [n])"
              by (simp add: Let_def)
            with inv' True show ?thesis
              by (intro exI [of _ c] exI [of _ n]) auto
          next
            case False
            with 1(2) ns s a Some have "wk adj (erase_edge e c n) start c n (po @ [n]) = Some r'"
              by (simp add: Let_def)
            from 1(1) [OF this] inv' show ?thesis by simp
          qed
        qed
      qed
    qed
  qed
  with i show ?thesis by simp
qed


lemma walk_subset:
  assumes "walk adj es start prev cur poly = Some (es', poly')"
  shows "set es' \<subseteq> set es \<and> length es' \<le> length es"
proof -
  have "\<exists>prev' cur'. (set (fst (es', poly')) \<subseteq> set es \<and> length (fst (es', poly')) \<le> length es) \<and>
      (cur' = start \<or> find_next (fst (es', poly')) prev' cur' (adj cur') = None
            \<or> length (snd (es', poly')) > 100000)"
  proof (rule walk_invariant [where I = "\<lambda>e p c po. set e \<subseteq> set es \<and> length e \<le> length es", OF assms])
    show "set es \<subseteq> set es \<and> length es \<le> length es" by simp
  next
    fix e p c po n
    assume "set e \<subseteq> set es \<and> length e \<le> length es"
    then show "set (erase_edge e c n) \<subseteq> set es \<and> length (erase_edge e c n) \<le> length es"
      using length_erase_edge_le [of e c n] by auto
  qed
  then show ?thesis by simp
qed

lemma walk_loops_returns:
  "\<forall>e \<in> set es. canonical e \<Longrightarrow> \<exists>r. walk_loops sor adj es loops = Some r"
proof (induction "length es" arbitrary: es loops rule: less_induct)
  case less
  show ?case
  proof (cases es)
    case Nil
    then show ?thesis by (subst walk_loops.simps) simp
  next
    case (Cons startE rest)
    let ?a = "edge_a startE" and ?b = "edge_b startE"
    from Cons less.prems have "make_edge ?a ?b \<in> set es"
      by (simp add: canonical_def)
    then have lt: "length (erase_edge es ?a ?b) < length es"
      by (rule length_erase_edge)
    obtain es' poly where w: "walk adj (erase_edge es ?a ?b) ?a ?a ?b [?a, ?b] = Some (es', poly)"
      using walk_returns [of adj "erase_edge es ?a ?b" ?a ?a ?b "[?a, ?b]"] by auto
    from walk_subset [OF w] lt less.prems
    have "length es' < length es" and "\<forall>e \<in> set es'. canonical e" by auto
    from less.hyps [OF this, of "keep_chain sor poly loops"] obtain r
      where "walk_loops sor adj es' (keep_chain sor poly loops) = Some r" by blast
    with Cons w show ?thesis by (subst walk_loops.simps) (simp add: Let_def)
  qed
qed

lemma walk_loops_invariant:
  assumes w: "walk_loops sor adj es loops = Some out"
    and i: "I es loops"
    and step: "\<And>es loops startE rest es' poly. I es loops \<Longrightarrow> es = startE # rest \<Longrightarrow>
        walk adj (erase_edge es (edge_a startE) (edge_b startE))
          (edge_a startE) (edge_a startE) (edge_b startE) [edge_a startE, edge_b startE]
          = Some (es', poly) \<Longrightarrow>
        I es' (keep_chain sor poly loops)"
  shows "I [] out"
proof -
  have "sor = sor \<longrightarrow> adj = adj \<longrightarrow> I es loops \<longrightarrow> I [] out"
  proof (rule walk_loops.raw_induct [where P = "\<lambda>s a e l r. s = sor \<longrightarrow> a = adj \<longrightarrow> I e l \<longrightarrow> I [] r",
        OF _ w], goal_cases)
    case (1 wl s a e l r)
    show ?case
    proof (intro impI)
      assume s: "s = sor" and a: "a = adj" and inv: "I e l"
      show "I [] r"
      proof (cases e)
        case Nil
        with 1(2) inv show ?thesis by simp
      next
        case (Cons startE rest)
        let ?a = "edge_a startE" and ?b = "edge_b startE"
        obtain es' poly where wk: "walk adj (erase_edge e ?a ?b) ?a ?a ?b [?a, ?b] = Some (es', poly)"
          using walk_returns [of adj "erase_edge e ?a ?b" ?a ?a ?b "[?a, ?b]"] by auto
        with 1(2) Cons s a have "wl sor adj es' (keep_chain sor poly l) = Some r"
          by (simp add: Let_def)
        from 1(1) [OF this] step [OF inv Cons wk] show ?thesis by simp
      qed
    qed
  qed
  with i show ?thesis by simp
qed

lemma canonical_side_segment: "canonical (side_segment c s)"
  by (cases c; cases s) (simp_all add: canonical_def)

lemma canonical_collect_edges: "e \<in> set (collect_edges cn layer) \<Longrightarrow> canonical e"
  by (auto simp: set_collect_edges canonical_side_segment)

lemma walk_length:
  "walk adj es start prev cur poly = Some (es', poly') \<Longrightarrow> length poly \<le> 100000 \<Longrightarrow>
     length poly' \<le> 100001"
proof (induction "length es" arbitrary: es prev cur poly rule: less_induct)
  case less
  show ?case
  proof (cases "cur = start")
    case True
    with less.prems show ?thesis by (subst (asm) walk.simps) simp
  next
    case ns: False
    show ?thesis
    proof (cases "find_next es prev cur (adj cur)")
      case None
      with less.prems ns show ?thesis by (subst (asm) walk.simps) simp
    next
      case (Some n)
      show ?thesis
      proof (cases "100000 < length (poly @ [n])")
        case True
        with less.prems ns Some have "poly' = poly @ [n]"
          by (subst (asm) walk.simps) (simp add: Let_def)
        with True less.prems(2) show ?thesis by simp
      next
        case False
        with less.prems(1) ns Some
        have w: "walk adj (erase_edge es cur n) start cur n (poly @ [n]) = Some (es', poly')"
          by (subst (asm) walk.simps) (simp add: Let_def)
        have "length (erase_edge es cur n) < length es"
          using Some find_next_Some length_erase_edge by blast
        from less.hyps [OF this w] False show ?thesis by simp
      qed
    qed
  qed
qed

lemma checker_edges: "collect_edges [''wall''] checker =
  [Edge (0, 0) (1, 0), Edge (0, 1) (1, 1), Edge (0, 0) (0, 1), Edge (1, 0) (1, 1),
   Edge (1, 1) (2, 1), Edge (1, 2) (2, 2), Edge (1, 1) (1, 2), Edge (2, 1) (2, 2)]"
  by code_simp

text \<open>
  Claim C6. For every layer and every iteration order of its collected edges the walking
  phase returns. Selecting from any part of the edge set removes the picked edge, every
  walking step removes the edge it consumes, and every walk returns; a walk that starts
  with at most 100000 vertices returns a chain of at most 100001 vertices, since the
  guard stops it as soon as the chain exceeds 100000.
\<close>

theorem C6_extraction_terminates:
  assumes "set es = set (collect_edges cn layer)"
  shows "(\<exists>loops. layer_loops sor es = Some loops)
    \<and> (\<forall>es' startE rest. set es' \<subseteq> set es \<and> es' = startE # rest \<longrightarrow>
          length (erase_edge es' (edge_a startE) (edge_b startE)) < length es')
    \<and> (\<forall>es' prev cur nbs n. find_next es' prev cur nbs = Some n \<longrightarrow>
          length (erase_edge es' cur n) < length es')
    \<and> (\<forall>adj es' start prev cur poly. length poly \<le> 100000 \<longrightarrow>
          (\<exists>es'' poly'. walk adj es' start prev cur poly = Some (es'', poly')
            \<and> length poly' \<le> 100001))"
proof -
  have can: "\<forall>e \<in> set es. canonical e"
    using assms canonical_collect_edges by auto
  have 1: "\<exists>loops. layer_loops sor es = Some loops"
    unfolding layer_loops_def using walk_loops_returns [OF can] .
  have 2: "\<forall>es' startE rest. set es' \<subseteq> set es \<and> es' = startE # rest \<longrightarrow>
          length (erase_edge es' (edge_a startE) (edge_b startE)) < length es'"
  proof (intro allI impI)
    fix es' startE rest assume a: "set es' \<subseteq> set es \<and> es' = startE # rest"
    with can have "canonical startE" by auto
    with a have "make_edge (edge_a startE) (edge_b startE) \<in> set es'"
      by (simp add: canonical_def)
    then show "length (erase_edge es' (edge_a startE) (edge_b startE)) < length es'"
      by (rule length_erase_edge)
  qed
  have 3: "\<forall>es' prev cur nbs n. find_next es' prev cur nbs = Some n \<longrightarrow>
          length (erase_edge es' cur n) < length es'"
    using find_next_Some length_erase_edge by blast
  have 4: "\<forall>adj es' start prev cur poly. length poly \<le> 100000 \<longrightarrow>
          (\<exists>es'' poly'. walk adj es' start prev cur poly = Some (es'', poly')
            \<and> length poly' \<le> 100001)"
  proof (intro allI impI)
    fix adj es' start prev cur and poly :: "IntPoint list"
    assume le: "length poly \<le> 100000"
    obtain es'' poly' where w: "walk adj es' start prev cur poly = Some (es'', poly')"
      using walk_returns [of adj es' start prev cur poly] by auto
    from walk_length [OF w le] w
    show "\<exists>es'' poly'. walk adj es' start prev cur poly = Some (es'', poly')
            \<and> length poly' \<le> 100001"
      by blast
  qed
  from 1 2 3 4 show ?thesis by blast
qed

theorem C6_witness:
  "set (collect_edges [''wall''] checker) = set (collect_edges [''wall''] checker)
   \<and> (\<exists>loops. layer_loops (\<lambda>_. True) (collect_edges [''wall''] checker) = Some loops)
   \<and> length (erase_edge (collect_edges [''wall''] checker) (0, 0) (1, 0))
        < length (collect_edges [''wall''] checker)"
proof -
  have "set (collect_edges [''wall''] checker) = set (collect_edges [''wall''] checker)" ..
  from C6_extraction_terminates [OF this, of "\<lambda>_. True"]
  have r: "\<exists>loops. layer_loops (\<lambda>_. True) (collect_edges [''wall''] checker) = Some loops"
    and s: "\<forall>es' startE rest. set es' \<subseteq> set (collect_edges [''wall''] checker)
          \<and> es' = startE # rest \<longrightarrow>
          length (erase_edge es' (edge_a startE) (edge_b startE)) < length es'"
    by blast+
  have "set (collect_edges [''wall''] checker) \<subseteq> set (collect_edges [''wall''] checker)
      \<and> collect_edges [''wall''] checker = Edge (0, 0) (1, 0) #
        [Edge (0, 1) (1, 1), Edge (0, 0) (0, 1), Edge (1, 0) (1, 1), Edge (1, 1) (2, 1),
         Edge (1, 2) (2, 2), Edge (1, 1) (1, 2), Edge (2, 1) (2, 2)]"
    by (simp add: checker_edges)
  with s have "length (erase_edge (collect_edges [''wall''] checker)
      (edge_a (Edge (0, 0) (1, 0))) (edge_b (Edge (0, 0) (1, 0))))
      < length (collect_edges [''wall''] checker)"
    by blast
  with r show ?thesis by simp
qed

subsection \<open>Chains are made of edges of the set\<close>

lemma chain_edges_snoc:
  "xs \<noteq> [] \<Longrightarrow> chain_edges (xs @ [y]) = chain_edges xs @ [make_edge (last xs) y]"
  by (induction xs rule: chain_edges.induct) auto

lemma length_chain_edges: "length (chain_edges xs) = length xs - 1"
  by (induction xs rule: chain_edges.induct) auto

lemma chain_edges_nth:
  "Suc i < length xs \<Longrightarrow> chain_edges xs ! i = make_edge (xs ! i) (xs ! Suc i)"
proof (induction xs arbitrary: i rule: chain_edges.induct)
  case (1 p q ps)
  then show ?case by (cases i) auto
qed auto

lemma chain_edges_rev: "chain_edges (rev xs) = rev (chain_edges xs)"
proof (induction xs rule: chain_edges.induct)
  case (1 p q ps)
  have "chain_edges (rev (p # q # ps)) = chain_edges ((rev ps @ [q]) @ [p])" by simp
  also have "\<dots> = chain_edges (rev ps @ [q]) @ [make_edge q p]"
    by (subst chain_edges_snoc) auto
  finally show ?case using 1 by (simp add: make_edge_commute)
qed auto

lemma set_chain_edges_butlast: "set (chain_edges (butlast xs)) \<subseteq> set (chain_edges xs)"
proof (cases "length xs \<ge> 2")
  case True
  then have "butlast xs \<noteq> []" by (cases xs rule: chain_edges.cases) auto
  moreover have "xs = butlast xs @ [last xs]" using True by (cases xs) auto
  ultimately have "chain_edges xs = chain_edges (butlast xs) @ [make_edge (last (butlast xs)) (last xs)]"
    using chain_edges_snoc by metis
  then show ?thesis by auto
next
  case False
  then show ?thesis by (cases xs rule: chain_edges.cases) auto
qed

lemma loop_edges_close_chain:
  assumes "length poly \<ge> 2" "last poly = hd poly"
  shows "loop_edges (butlast poly) = chain_edges poly"
proof -
  from assms(1) obtain p q ps where poly: "poly = p # q # ps"
    by (cases poly rule: chain_edges.cases) auto
  then have "butlast poly \<noteq> []" "hd (butlast poly) = hd poly" by auto
  moreover have "butlast poly @ [last poly] = poly" using poly by simp
  ultimately show ?thesis using assms(2) by (simp add: loop_edges_def)
qed

lemma set_loop_edges:
  "l \<noteq> [] \<Longrightarrow> set (loop_edges l) = insert (make_edge (last l) (hd l)) (set (chain_edges l))"
  by (simp add: loop_edges_def chain_edges_snoc)

lemma set_loop_edges_rev: "set (loop_edges (rev l)) = set (loop_edges l)"
proof (cases "l = []")
  case True
  then show ?thesis by simp
next
  case False
  then show ?thesis
    by (simp add: set_loop_edges chain_edges_rev hd_rev last_rev make_edge_commute)
qed

lemma walk_trail:
  assumes w: "walk adj es start prev cur poly = Some (es', poly')"
    and ne: "poly \<noteq> []" and lst: "last poly = cur"
    and dj: "set (chain_edges poly) \<inter> set es = {}"
    and dt: "distinct (chain_edges poly)"
  shows "poly' \<noteq> [] \<and> hd poly' = hd poly \<and> length poly \<le> length poly'
     \<and> set es' = set es - set (chain_edges poly')
     \<and> set (chain_edges poly') \<subseteq> set (chain_edges poly) \<union> set es
     \<and> set (chain_edges poly) \<subseteq> set (chain_edges poly')
     \<and> distinct (chain_edges poly')"
proof -
  let ?I = "\<lambda>e (p::IntPoint) c po. po \<noteq> [] \<and> last po = c \<and> hd po = hd poly
     \<and> length poly \<le> length po
     \<and> set e = set es - set (chain_edges po)
     \<and> set (chain_edges po) \<subseteq> set (chain_edges poly) \<union> set es
     \<and> set (chain_edges poly) \<subseteq> set (chain_edges po)
     \<and> distinct (chain_edges po)"
  have "\<exists>prev' cur'. ?I (fst (es', poly')) prev' cur' (snd (es', poly')) \<and>
      (cur' = start \<or> find_next (fst (es', poly')) prev' cur' (adj cur') = None
            \<or> length (snd (es', poly')) > 100000)"
  proof (rule walk_invariant [where I = ?I, OF w])
    show "?I es prev cur poly" using ne lst dj dt by auto
  next
    fix e p c po n
    assume i: "?I e p c po" and "c \<noteq> start" and f: "find_next e p c (adj c) = Some n"
    from f have m: "make_edge c n \<in> set e" using find_next_Some by blast
    from i have ce: "chain_edges (po @ [n]) = chain_edges po @ [make_edge c n]"
      by (simp add: chain_edges_snoc)
    from i m show "?I (erase_edge e c n) c n (po @ [n])"
      unfolding ce by auto
  qed
  then show ?thesis by auto
qed


lemma edge_disjoint_snoc:
  "edge_disjoint f (ls @ [l]) =
     (edge_disjoint f ls \<and> (\<forall>k \<in> set ls. set (f k) \<inter> set (f l) = {}))"
proof
  assume a: "edge_disjoint f (ls @ [l])"
  have "edge_disjoint f ls"
    unfolding edge_disjoint_def
  proof (intro allI impI)
    fix i j assume ij: "i < j \<and> j < length ls"
    with a have "set (f ((ls @ [l]) ! i)) \<inter> set (f ((ls @ [l]) ! j)) = {}"
      unfolding edge_disjoint_def by simp
    with ij show "set (f (ls ! i)) \<inter> set (f (ls ! j)) = {}"
      by (simp add: nth_append)
  qed
  moreover have "\<forall>k \<in> set ls. set (f k) \<inter> set (f l) = {}"
  proof
    fix k assume "k \<in> set ls"
    then obtain i where i: "i < length ls" "ls ! i = k" by (auto simp: in_set_conv_nth)
    from i have "i < length ls \<and> length ls < length (ls @ [l])" by simp
    with a have "set (f ((ls @ [l]) ! i)) \<inter> set (f ((ls @ [l]) ! length ls)) = {}"
      unfolding edge_disjoint_def by blast
    with i show "set (f k) \<inter> set (f l) = {}" by (simp add: nth_append)
  qed
  ultimately show "edge_disjoint f ls \<and> (\<forall>k \<in> set ls. set (f k) \<inter> set (f l) = {})" ..
next
  assume a: "edge_disjoint f ls \<and> (\<forall>k \<in> set ls. set (f k) \<inter> set (f l) = {})"
  show "edge_disjoint f (ls @ [l])"
    unfolding edge_disjoint_def
  proof (intro allI impI)
    fix i j assume ij: "i < j \<and> j < length (ls @ [l])"
    show "set (f ((ls @ [l]) ! i)) \<inter> set (f ((ls @ [l]) ! j)) = {}"
    proof (cases "j < length ls")
      case True
      with a ij show ?thesis unfolding edge_disjoint_def by (simp add: nth_append)
    next
      case False
      with ij have j: "j = length ls" and i: "i < length ls" by auto
      then have "ls ! i \<in> set ls" by simp
      with a i j show ?thesis by (simp add: nth_append)
    qed
  qed
qed

lemma keep_chain_cases:
  "keep_chain sor poly loops = loops \<and> length (close_chain poly) < 3
   \<or> keep_chain sor poly loops = loops @ [resolve_winding sor (close_chain poly)]
       \<and> 3 \<le> length (close_chain poly)"
  by (simp add: keep_chain_def Let_def)

lemma set_chain_edges_resolve:
  "set (chain_edges (resolve_winding sor p)) = set (chain_edges p)"
  by (simp add: resolve_winding_def chain_edges_rev)

lemma set_chain_edges_close: "set (chain_edges (close_chain p)) \<subseteq> set (chain_edges p)"
  using set_chain_edges_butlast by (simp add: close_chain_def)

lemma first_walk:
  assumes es: "es = startE # rest" and can: "\<forall>e \<in> set es. canonical e"
    and w: "walk adj (erase_edge es (edge_a startE) (edge_b startE))
          (edge_a startE) (edge_a startE) (edge_b startE) [edge_a startE, edge_b startE]
          = Some (es', poly)"
  shows "2 \<le> length poly \<and> hd poly = edge_a startE
     \<and> set es' = set es - set (chain_edges poly)
     \<and> set (chain_edges poly) \<subseteq> set es
     \<and> startE \<in> set (chain_edges poly)
     \<and> distinct (chain_edges poly)"
proof -
  let ?a = "edge_a startE" and ?b = "edge_b startE"
  from es can have m: "make_edge ?a ?b = startE" by (simp add: canonical_def)
  have "[?a, ?b] \<noteq> []" "last [?a, ?b] = ?b"
    "set (chain_edges [?a, ?b]) \<inter> set (erase_edge es ?a ?b) = {}"
    "distinct (chain_edges [?a, ?b])" by auto
  from walk_trail [OF w this] m es show ?thesis by auto
qed

lemma walk_loops_chain_edges:
  assumes w: "walk_loops sor adj es loops = Some out"
    and can: "\<forall>e \<in> set es. canonical e"
    and sub: "set es \<subseteq> E"
    and old: "\<forall>l \<in> set loops. set (chain_edges l) \<subseteq> E - set es"
    and dj: "edge_disjoint chain_edges loops"
  shows "(\<forall>l \<in> set out. set (chain_edges l) \<subseteq> E) \<and> edge_disjoint chain_edges out"
proof -
  let ?I = "\<lambda>es loops. (\<forall>e \<in> set es. canonical e) \<and> set es \<subseteq> E
     \<and> (\<forall>l \<in> set loops. set (chain_edges l) \<subseteq> E - set es)
     \<and> edge_disjoint chain_edges loops"
  have "?I [] out"
  proof (rule walk_loops_invariant [where I = ?I, OF w])
    show "?I es loops" using can sub old dj by simp
  next
    fix es loops startE rest es' poly
    assume i: "?I es loops" and es: "es = startE # rest"
      and wk: "walk adj (erase_edge es (edge_a startE) (edge_b startE))
          (edge_a startE) (edge_a startE) (edge_b startE) [edge_a startE, edge_b startE]
          = Some (es', poly)"
    from i have can: "\<forall>e \<in> set es. canonical e" by simp
    note fw = first_walk [OF es can wk]
    let ?l = "resolve_winding sor (close_chain poly)"
    have l: "set (chain_edges ?l) \<subseteq> set (chain_edges poly)"
      using set_chain_edges_close by (simp add: set_chain_edges_resolve)
    have 1: "(\<forall>e \<in> set es'. canonical e) \<and> set es' \<subseteq> E" using i fw by auto
    have 2: "\<forall>k \<in> set loops. set (chain_edges k) \<subseteq> E - set es'" using i fw by auto
    have 3: "set (chain_edges ?l) \<subseteq> E - set es'" using i fw l by auto
    have 4: "\<forall>k \<in> set loops. set (chain_edges k) \<inter> set (chain_edges ?l) = {}"
      using i fw l by fastforce
    from keep_chain_cases [of sor poly loops] show "?I es' (keep_chain sor poly loops)"
    proof
      assume "keep_chain sor poly loops = loops \<and> length (close_chain poly) < 3"
      with 1 2 i show ?thesis by simp
    next
      assume "keep_chain sor poly loops = loops @ [?l] \<and> 3 \<le> length (close_chain poly)"
      with 1 2 3 4 i show ?thesis by (simp add: edge_disjoint_snoc)
    qed
  qed
  then show ?thesis by simp
qed

lemma unit_step_collect:
  assumes "make_edge p q \<in> set (collect_edges cn layer)"
  shows "unit_step p q"
proof -
  from assms obtain c s where "make_edge p q = side_segment c s"
    by (auto simp: set_collect_edges)
  then show ?thesis
    by (cases c; cases s; cases p; cases q)
      (auto simp: make_edge_def unit_step_def split: if_splits)
qed

text \<open>
  Claim C9. In every chain the walking phase emits for a layer, two consecutive vertices
  (the wrap from the last to the first apart) differ by exactly one in exactly one
  coordinate.
\<close>

theorem C9_unit_steps:
  assumes "iteration_order cn layer es"
    and "layer_loops sor es = Some loops"
    and "l \<in> set loops" and "Suc i < length l"
  shows "unit_step (l ! i) (l ! Suc i)"
proof -
  let ?E = "set (collect_edges cn layer)"
  from assms(1) have e: "set es = ?E" by (simp add: iteration_order_def)
  then have can: "\<forall>e \<in> set es. canonical e" using canonical_collect_edges by auto
  have "\<forall>l \<in> set loops. set (chain_edges l) \<subseteq> ?E"
    using walk_loops_chain_edges [OF assms(2) [unfolded layer_loops_def] can, of ?E] e
    by (simp add: edge_disjoint_def)
  with assms(3) have "set (chain_edges l) \<subseteq> ?E" by simp
  moreover have "chain_edges l ! i \<in> set (chain_edges l)"
    using assms(4) by (simp add: length_chain_edges)
  ultimately have "make_edge (l ! i) (l ! Suc i) \<in> ?E"
    using assms(4) by (auto simp: chain_edges_nth)
  then show ?thesis by (rule unit_step_collect)
qed

text \<open>Unfolding the walker on a concrete edge list.\<close>

lemmas walker_eval = layer_loops_def walk_loops.simps walk.simps build_adj_def adj_push_back_def
  erase_edge_def make_edge_def keep_chain_def close_chain_def resolve_winding_def Let_def

lemma block3_edges: "collect_edges [''wall''] block3 =
  [Edge (0, 0) (1, 0), Edge (0, 0) (0, 1), Edge (1, 0) (2, 0), Edge (2, 0) (3, 0),
   Edge (3, 0) (3, 1), Edge (0, 1) (0, 2), Edge (3, 1) (3, 2), Edge (0, 3) (1, 3),
   Edge (0, 2) (0, 3), Edge (1, 3) (2, 3), Edge (2, 3) (3, 3), Edge (3, 2) (3, 3)]"
  by code_simp

lemma block3_loops:
  "layer_loops (\<lambda>_. True) (collect_edges [''wall''] block3) =
     Some [block_cycle]"
  unfolding block3_edges block_cycle_def
  by (simp add: walker_eval cong: if_weak_cong option.case_cong_weak list.case_cong_weak)

lemma iteration_order_collect: "iteration_order cn layer (collect_edges cn layer)"
  by (simp add: iteration_order_def distinct_collect_edges)

theorem C9_witness:
  "iteration_order [''wall''] block3 (collect_edges [''wall''] block3)
   \<and> layer_loops (\<lambda>_. True) (collect_edges [''wall''] block3) =
     Some [block_cycle]
   \<and> unit_step (3, 0) (3, 1)"
  using C9_unit_steps [OF iteration_order_collect block3_loops, of block_cycle 3]
    iteration_order_collect block3_loops
  by (simp add: block_cycle_def)

subsection \<open>Corner degrees and closing walks\<close>

lemma degree_erase:
  assumes "distinct es" "e \<in> set es"
  shows "degree es v =
     degree (removeAll e es) v + (if edge_a e = v \<or> edge_b e = v then 1 else 0)"
  using assms unfolding degree_def
proof (induction es)
  case Nil
  then show ?case by simp
next
  case (Cons x xs)
  show ?case
  proof (cases "x = e")
    case True
    with Cons.prems have "e \<notin> set xs" by simp
    then have "removeAll e xs = xs" by simp
    with True show ?thesis by simp
  next
    case False
    with Cons.prems have "distinct xs" "e \<in> set xs" by auto
    from Cons.IH [OF this] False show ?thesis by simp
  qed
qed

lemma degree_pos:
  "e \<in> set es \<Longrightarrow> edge_a e = v \<or> edge_b e = v \<Longrightarrow> 0 < degree es v"
  unfolding degree_def by (induction es) auto

lemma degree_pos_ex:
  "0 < degree es v \<Longrightarrow> \<exists>e \<in> set es. edge_a e = v \<or> edge_b e = v"
  unfolding degree_def by (induction es) (auto split: if_splits)

lemma canonical_ends:
  "canonical e \<Longrightarrow> edge_a e = v \<Longrightarrow> make_edge v (edge_b e) = e"
  "canonical e \<Longrightarrow> edge_b e = v \<Longrightarrow> make_edge v (edge_a e) = e"
  by (auto simp: canonical_def make_edge_commute)

lemma make_edge_ends:
  "edge_a (make_edge p q) = p \<and> edge_b (make_edge p q) = q
   \<or> edge_a (make_edge p q) = q \<and> edge_b (make_edge p q) = p"
  by (simp add: make_edge_def)

lemma set_build_adj_aux:
  "set (fold (\<lambda>e adj. adj_push_back (adj_push_back adj (edge_a e) (edge_b e)) (edge_b e) (edge_a e))
          es adj0 v)
     = set (adj0 v) \<union> {edge_b e | e. e \<in> set es \<and> edge_a e = v}
         \<union> {edge_a e | e. e \<in> set es \<and> edge_b e = v}"
proof (induction es arbitrary: adj0)
  case Nil
  then show ?case by simp
next
  case (Cons x xs)
  show ?case
    unfolding fold_simps Cons.IH
    by (auto simp: adj_push_back_def)
qed

lemma set_build_adj:
  "set (build_adj es v) = {edge_b e | e. e \<in> set es \<and> edge_a e = v}
         \<union> {edge_a e | e. e \<in> set es \<and> edge_b e = v}"
  unfolding build_adj_def set_build_adj_aux by simp

lemma build_adj_complete:
  assumes "make_edge v u \<in> set es"
  shows "u \<in> set (build_adj es v)"
  using assms make_edge_ends [of v u] unfolding set_build_adj by force


lemma proper_make_edge:
  assumes "proper (make_edge c n)"
  shows "c \<noteq> n \<and> ((edge_a (make_edge c n) = v \<or> edge_b (make_edge c n) = v) = (v = c \<or> v = n))"
  using assms make_edge_ends [of c n] unfolding proper_def by auto

lemma walk_closes:
  assumes w: "walk adj es start prev cur poly = Some (es', poly')"
    and dist: "distinct es"
    and prp: "\<forall>e \<in> set es. proper e"
    and adjc: "\<forall>u v. make_edge v u \<in> set es \<longrightarrow> u \<in> set (adj v)"
    and prv: "make_edge cur prev \<notin> set es"
    and par: "\<forall>v. odd (degree es v) = (cur \<noteq> start \<and> (v = start \<or> v = cur))"
    and lst: "poly \<noteq> [] \<and> last poly = cur"
  shows "distinct es' \<and> (last poly' = start \<or> 100000 < length poly')
     \<and> (last poly' = start \<longrightarrow> (\<forall>v. even (degree es' v)))"
proof -
  let ?I = "\<lambda>e p c po. distinct e \<and> set e \<subseteq> set es \<and> make_edge c p \<notin> set e
     \<and> (\<forall>v. odd (degree e v) = (c \<noteq> start \<and> (v = start \<or> v = c)))
     \<and> po \<noteq> [] \<and> last po = c"
  have "\<exists>prev' cur'. ?I (fst (es', poly')) prev' cur' (snd (es', poly')) \<and>
      (cur' = start \<or> find_next (fst (es', poly')) prev' cur' (adj cur') = None
            \<or> length (snd (es', poly')) > 100000)"
  proof (rule walk_invariant [where I = ?I, OF w])
    show "?I es prev cur poly" using dist prv par lst by simp
  next
    fix e p c po n
    assume i: "?I e p c po" and ns: "c \<noteq> start" and f: "find_next e p c (adj c) = Some n"
    from f have m: "make_edge c n \<in> set e" using find_next_Some by blast
    with i prp have pr: "proper (make_edge c n)" by auto
    note ends = proper_make_edge [OF pr]
    from i have d: "distinct e" by simp
    have deg: "\<And>v. degree e v = degree (erase_edge e c n) v + (if v = c \<or> v = n then 1 else 0)"
      using degree_erase [OF d m] ends unfolding erase_edge_def by simp
    have parity: "\<forall>v. odd (degree (erase_edge e c n) v) = (n \<noteq> start \<and> (v = start \<or> v = n))"
    proof
      fix v
      from i ns have o: "odd (degree e v) = (v = start \<or> v = c)" by blast
      show "odd (degree (erase_edge e c n) v) = (n \<noteq> start \<and> (v = start \<or> v = n))"
      proof (cases "v = c \<or> v = n")
        case True
        with deg [of v] have "degree e v = Suc (degree (erase_edge e c n) v)" by simp
        with o have "even (degree (erase_edge e c n) v) = (v = start \<or> v = c)" by simp
        with True ends ns show ?thesis by auto
      next
        case False
        with deg [of v] o show ?thesis by auto
      qed
    qed
    from i d have "distinct (erase_edge e c n) \<and> set (erase_edge e c n) \<subseteq> set es"
      by (auto simp: distinct_erase_edge)
    moreover have "make_edge n c \<notin> set (erase_edge e c n)"
      by (simp add: make_edge_commute)
    ultimately show "?I (erase_edge e c n) c n (po @ [n])"
      using parity by simp
  qed
  then obtain prev' cur' where i: "?I es' prev' cur' poly'"
    and ex: "cur' = start \<or> find_next es' prev' cur' (adj cur') = None \<or> length poly' > 100000"
    by auto
  have nn: "find_next es' prev' cur' (adj cur') \<noteq> None" if ns: "cur' \<noteq> start"
  proof -
    from i ns have "odd (degree es' cur')" by blast
    then have "0 < degree es' cur'" by (cases "degree es' cur'") auto
    from degree_pos_ex [OF this] obtain x where x: "x \<in> set es'"
      and inc: "edge_a x = cur' \<or> edge_b x = cur'" by blast
    from x i prp have "canonical x" by (auto simp: proper_def)
    with inc obtain u where u: "make_edge cur' u = x"
      using canonical_ends by blast
    with x i adjc have "u \<in> set (adj cur')" by blast
    moreover from u x i have "u \<noteq> prev'" by auto
    ultimately show ?thesis using u x by (auto simp: find_next_None)
  qed
  have "\<forall>v. even (degree es' v)" if "cur' = start"
    using i that by blast
  moreover have "100000 < length poly'" if "cur' \<noteq> start"
    using nn [OF that] ex that by auto
  ultimately show ?thesis using i by blast
qed


lemma set_loop_edges_resolve:
  "set (loop_edges (resolve_winding sor l)) = set (loop_edges l)"
  by (simp add: resolve_winding_def set_loop_edges_rev)

lemma proper_collect_edges: "e \<in> set (collect_edges cn layer) \<Longrightarrow> proper e"
proof -
  assume "e \<in> set (collect_edges cn layer)"
  then obtain c s where "e = side_segment c s" by (auto simp: set_collect_edges)
  then show "proper e"
    by (cases c; cases s) (simp_all add: proper_def canonical_def)
qed

lemma set_collect_boundary: "set (collect_edges cn layer) = {e. boundary_segment cn layer e}"
  using set_collect_edges boundary_segment_iff by auto

lemma incident_segments:
  assumes "is_unit_segment e" "edge_a e = (x, y) \<or> edge_b e = (x, y)"
  shows "e \<in> set [Edge (x - 1, y) (x, y), Edge (x, y) (x + 1, y),
                  Edge (x, y - 1) (x, y), Edge (x, y) (x, y + 1)]"
  using assms by (cases e) (auto simp: is_unit_segment_def)

lemma degree_card:
  "distinct es \<Longrightarrow> degree es v = card {e \<in> set es. edge_a e = v \<or> edge_b e = v}"
proof -
  assume "distinct es"
  then have "distinct (filter (\<lambda>e. edge_a e = v \<or> edge_b e = v) es)" by simp
  from distinct_card [OF this] show ?thesis
    unfolding degree_def set_filter by simp
qed

lemma even_degree_collect:
  assumes "iteration_order cn layer es"
  shows "even (degree es v)"
proof -
  obtain x y where v: "v = (x, y)" by (cases v)
  let ?S = "solid_cell cn layer"
  let ?four = "[Edge (x - 1, y) (x, y), Edge (x, y) (x + 1, y),
                Edge (x, y - 1) (x, y), Edge (x, y) (x, y + 1)]"
  from assms have d: "distinct es" and se: "set es = {e. boundary_segment cn layer e}"
    by (simp_all add: iteration_order_def set_collect_boundary)
  have LR: "{e \<in> set es. edge_a e = v \<or> edge_b e = v}
      = set (filter (boundary_segment cn layer) ?four)" (is "?L = ?R")
  proof
    show "?L \<subseteq> ?R"
    proof
      fix e assume "e \<in> ?L"
      with se v have b: "boundary_segment cn layer e"
        and i: "edge_a e = (x, y) \<or> edge_b e = (x, y)" by auto
      from b have "is_unit_segment e" by (simp add: boundary_segment_def)
      from incident_segments [OF this i] have "e \<in> set ?four" .
      with b show "e \<in> ?R" unfolding set_filter by blast
    qed
    show "?R \<subseteq> ?L"
    proof
      fix e assume "e \<in> ?R"
      then have f: "e \<in> set ?four" and b: "boundary_segment cn layer e"
        unfolding set_filter by blast+
      from f have "edge_a e = v \<or> edge_b e = v" using v by auto
      with b se show "e \<in> ?L" by simp
    qed
  qed
  have "distinct (filter (boundary_segment cn layer) ?four)"
    by (rule distinct_filter) simp
  from distinct_card [OF this]
  have "degree es v = length (filter (boundary_segment cn layer) ?four)"
    unfolding degree_card [OF d, of v] LR by simp
  moreover have "boundary_segment cn layer (Edge (x - 1, y) (x, y)) = (?S (x - 1, y - 1) \<noteq> ?S (x - 1, y))"
    "boundary_segment cn layer (Edge (x, y) (x + 1, y)) = (?S (x, y - 1) \<noteq> ?S (x, y))"
    "boundary_segment cn layer (Edge (x, y - 1) (x, y)) = (?S (x - 1, y - 1) \<noteq> ?S (x, y - 1))"
    "boundary_segment cn layer (Edge (x, y) (x, y + 1)) = (?S (x - 1, y) \<noteq> ?S (x, y))"
    by (simp_all add: boundary_segment_def is_unit_segment_def adjoining_cells_def)
  ultimately show ?thesis
    by (cases "?S (x - 1, y - 1)"; cases "?S (x, y - 1)"; cases "?S (x - 1, y)"; cases "?S (x, y)")
       simp_all
qed

lemma walk_loops_closed:
  assumes w: "walk_loops sor adj es loops = Some out"
    and dist: "distinct es"
    and prp: "\<forall>e \<in> set es. proper e"
    and sub: "set es \<subseteq> E"
    and adjc: "\<forall>u v. make_edge v u \<in> E \<longrightarrow> u \<in> set (adj v)"
    and ev: "\<forall>v. even (degree es v)"
    and old: "\<forall>l \<in> set loops. set (loop_edges l) \<subseteq> E - set es"
    and dj: "edge_disjoint loop_edges loops"
    and small: "\<forall>l \<in> set out. length l \<le> 100000"
  shows "(\<forall>l \<in> set out. set (loop_edges l) \<subseteq> E) \<and> edge_disjoint loop_edges out"
proof -
  let ?G = "\<lambda>es loops. distinct es \<and> (\<forall>e \<in> set es. proper e) \<and> set es \<subseteq> E
     \<and> (\<forall>v. even (degree es v))
     \<and> (\<forall>l \<in> set loops. set (loop_edges l) \<subseteq> E - set es)
     \<and> edge_disjoint loop_edges loops"
  let ?I = "\<lambda>es loops. (\<forall>l \<in> set loops. length l \<le> 100000) \<longrightarrow> ?G es loops"
  have "?I [] out"
  proof (rule walk_loops_invariant [where I = ?I, OF w])
    show "?I es loops" using dist prp sub ev old dj by simp
  next
    fix es loops startE rest es' poly
    assume i: "?I es loops" and es: "es = startE # rest"
      and wk: "walk adj (erase_edge es (edge_a startE) (edge_b startE))
          (edge_a startE) (edge_a startE) (edge_b startE) [edge_a startE, edge_b startE]
          = Some (es', poly)"
    let ?a = "edge_a startE" and ?b = "edge_b startE"
    let ?l = "resolve_winding sor (close_chain poly)"
    show "?I es' (keep_chain sor poly loops)"
    proof
      assume sm: "\<forall>l \<in> set (keep_chain sor poly loops). length l \<le> 100000"
      have "set loops \<subseteq> set (keep_chain sor poly loops)"
        using keep_chain_cases [of sor poly loops] by auto
      with sm i have g: "?G es loops" by blast
      then have can: "\<forall>e \<in> set es. canonical e" by (simp add: proper_def)
      note fw = first_walk [OF es can wk]
      from g es have pse: "proper startE" by simp
      with es have me: "make_edge ?a ?b = startE" and ab: "?a \<noteq> ?b"
        by (simp_all add: proper_def canonical_def)
      have in_es: "startE \<in> set es" using es by simp
      from g have d: "distinct es" by simp
      have par: "\<forall>v. odd (degree (erase_edge es ?a ?b) v) = (?b \<noteq> ?a \<and> (v = ?a \<or> v = ?b))"
      proof
        fix v
        from g have "even (degree es v)" by blast
        moreover have "degree es v = degree (erase_edge es ?a ?b) v
            + (if ?a = v \<or> ?b = v then 1 else 0)"
          using degree_erase [OF d in_es, of v] me by (simp add: erase_edge_def)
        ultimately show "odd (degree (erase_edge es ?a ?b) v) = (?b \<noteq> ?a \<and> (v = ?a \<or> v = ?b))"
          using ab by auto
      qed
      have "distinct es' \<and> (last poly = ?a \<or> 100000 < length poly)
         \<and> (last poly = ?a \<longrightarrow> (\<forall>v. even (degree es' v)))"
      proof (rule walk_closes [OF wk _ _ _ _ par])
        show "distinct (erase_edge es ?a ?b)" using d by (rule distinct_erase_edge)
        show "\<forall>e \<in> set (erase_edge es ?a ?b). proper e" using g by simp
        show "\<forall>u v. make_edge v u \<in> set (erase_edge es ?a ?b) \<longrightarrow> u \<in> set (adj v)"
          using g adjc by auto
        show "make_edge ?b ?a \<notin> set (erase_edge es ?a ?b)" by (simp add: make_edge_commute)
        show "[?a, ?b] \<noteq> [] \<and> last [?a, ?b] = ?b" by simp
      qed
      then have d': "distinct es'"
        and cl: "last poly = ?a \<or> 100000 < length poly"
        and cle: "last poly = ?a \<longrightarrow> (\<forall>v. even (degree es' v))" by blast+
      have closed: "last poly = hd poly"
      proof (rule ccontr)
        assume nc: "last poly \<noteq> hd poly"
        with cl fw have big: "100000 < length poly" by auto
        from nc have "close_chain poly = poly" by (simp add: close_chain_def)
        with big have "keep_chain sor poly loops = loops @ [resolve_winding sor poly]"
          by (simp add: keep_chain_def)
        with sm have "length (resolve_winding sor poly) \<le> 100000" by simp
        with big show False by (simp add: resolve_winding_def split: if_splits)
      qed
      with cle fw have ev': "\<forall>v. even (degree es' v)" by metis
      from closed fw have cc: "close_chain poly = butlast poly"
        by (auto simp: close_chain_def)
      have le: "set (loop_edges ?l) = set (chain_edges poly)"
        using loop_edges_close_chain [of poly] fw closed cc
        by (simp add: set_loop_edges_resolve)
      have 1: "distinct es' \<and> (\<forall>e \<in> set es'. proper e) \<and> set es' \<subseteq> E" using g fw d' by auto
      have 2: "\<forall>k \<in> set loops. set (loop_edges k) \<subseteq> E - set es'" using g fw by auto
      have 3: "set (loop_edges ?l) \<subseteq> E - set es'" using g fw le by auto
      have 4: "\<forall>k \<in> set loops. set (loop_edges k) \<inter> set (loop_edges ?l) = {}"
      proof
        fix k assume "k \<in> set loops"
        with g have "set (loop_edges k) \<subseteq> E - set es" by blast
        moreover from fw le have "set (loop_edges ?l) \<subseteq> set es" by simp
        ultimately show "set (loop_edges k) \<inter> set (loop_edges ?l) = {}" by blast
      qed
      from keep_chain_cases [of sor poly loops] show "?G es' (keep_chain sor poly loops)"
      proof
        assume "keep_chain sor poly loops = loops \<and> length (close_chain poly) < 3"
        with 1 2 ev' g show ?thesis by simp
      next
        assume "keep_chain sor poly loops = loops @ [?l] \<and> 3 \<le> length (close_chain poly)"
        with 1 2 3 4 ev' g show ?thesis by (simp add: edge_disjoint_snoc)
      qed
    qed
  qed
  with small show ?thesis by simp
qed

subsection \<open>Forced paths, and the one-row layer\<close>

lemma find_next_unique:
  assumes "n \<in> set nbs" "n \<noteq> prev" "make_edge cur n \<in> set es"
    and u: "\<forall>u. u \<noteq> prev \<and> make_edge cur u \<in> set es \<longrightarrow> u = n"
  shows "find_next es prev cur nbs = Some n"
  using assms(1)
proof (induction nbs)
  case Nil
  then show ?case by simp
next
  case (Cons c nbs)
  show ?case
  proof (cases "c = prev")
    case True
    with Cons assms(2) show ?thesis by simp
  next
    case np: False
    show ?thesis
    proof (cases "make_edge cur c \<in> set es")
      case True
      with np u have "c = n" by blast
      with np assms(3) show ?thesis by simp
    next
      case False
      with assms(3) have "c \<noteq> n" by blast
      with Cons np False show ?thesis by simp
    qed
  qed
qed

lemma walk_forced:
  assumes "forced (set es) start prev cur path"
    and "\<forall>u v. make_edge v u \<in> set es \<longrightarrow> u \<in> set (adj v)"
    and "path \<noteq> []"
    and "length poly + length path \<le> 100001"
    and "last path = start \<or> length poly + length path = 100001"
  shows "\<exists>es'. walk adj es start prev cur poly = Some (es', poly @ path)
           \<and> set es' = set es - set (chain_edges (cur # path))"
  using assms
proof (induction path arbitrary: es prev cur poly)
  case Nil
  then show ?case by simp
next
  case (Cons n path)
  from Cons.prems(1) have ns: "cur \<noteq> start" and np: "n \<noteq> prev"
    and m: "make_edge cur n \<in> set es"
    and u: "\<forall>u. u \<noteq> prev \<and> make_edge cur u \<in> set es \<longrightarrow> u = n"
    and f: "forced (set (erase_edge es cur n)) start cur n path" by simp_all
  from m Cons.prems(2) have "n \<in> set (adj cur)" by blast
  from find_next_unique [OF this np m u]
  have fn: "find_next es prev cur (adj cur) = Some n" .
  show ?case
  proof (cases "path = []")
    case True
    show ?thesis
    proof (cases "100000 < length (poly @ [n])")
      case g: True
      with ns fn True show ?thesis
        by (subst walk.simps) (simp add: Let_def)
    next
      case False
      with Cons.prems(5) True have "n = start" by simp
      with ns fn True False show ?thesis
        by (subst walk.simps, simp add: Let_def, subst walk.simps, simp)
    qed
  next
    case False
    with Cons.prems(4) have ng: "\<not> 100000 < length (poly @ [n])" by (cases path) auto
    have a: "\<forall>u v. make_edge v u \<in> set (erase_edge es cur n) \<longrightarrow> u \<in> set (adj v)"
      using Cons.prems(2) by simp
    have "\<exists>es'. walk adj (erase_edge es cur n) start cur n (poly @ [n]) = Some (es', (poly @ [n]) @ path)
           \<and> set es' = set (erase_edge es cur n) - set (chain_edges (n # path))"
      using Cons.prems(4,5) False by (intro Cons.IH [OF f a False]) auto
    then obtain es' where w: "walk adj (erase_edge es cur n) start cur n (poly @ [n]) = Some (es', poly @ n # path)"
      and s: "set es' = set (erase_edge es cur n) - set (chain_edges (n # path))" by auto
    from w ns fn ng have "walk adj es start prev cur poly = Some (es', poly @ n # path)"
      by (subst walk.simps) (simp add: Let_def)
    moreover from s have "set es' = set es - set (chain_edges (cur # n # path))" by auto
    ultimately show ?thesis by blast
  qed
qed

lemma walk_loops_prefix:
  assumes "walk_loops sor adj es loops = Some out"
  shows "prefix loops out"
proof (rule walk_loops_invariant [where I = "\<lambda>es l. prefix loops l", OF assms])
  show "prefix loops loops" by simp
next
  fix es l startE rest es' poly
  assume "prefix loops l"
  then show "prefix loops (keep_chain sor poly l)"
    using keep_chain_cases [of sor poly l] by (auto intro: prefix_order.trans)
qed


lemma walk_loops_first:
  assumes es: "es = startE # rest" and can: "\<forall>e \<in> set es. canonical e"
    and w: "walk adj (erase_edge es (edge_a startE) (edge_b startE))
          (edge_a startE) (edge_a startE) (edge_b startE) [edge_a startE, edge_b startE]
          = Some (es', poly)"
  shows "\<exists>out. walk_loops sor adj es [] = Some out \<and> prefix (keep_chain sor poly []) out"
proof -
  from walk_subset [OF w] can have "\<forall>e \<in> set es'. canonical e" by auto
  from walk_loops_returns [OF this] obtain out
    where o: "walk_loops sor adj es' (keep_chain sor poly []) = Some out" by blast
  from es w o have "walk_loops sor adj es [] = Some out"
    by (subst walk_loops.simps) (simp add: Let_def)
  with walk_loops_prefix [OF o] show ?thesis by blast
qed

lemma prefix_collect_cell: "prefix es (collect_cell cn layer sz y x es)"
  by (auto simp: collect_cell_def Let_def set_insert_def)

lemma prefix_collect_cells: "prefix es (fold (collect_cell cn layer sz y) xs es)"
proof (induction xs arbitrary: es)
  case Nil
  then show ?case by simp
next
  case (Cons x xs)
  have "prefix es (collect_cell cn layer sz y x es)" by (rule prefix_collect_cell)
  also have "prefix \<dots> (fold (collect_cell cn layer sz y) xs (collect_cell cn layer sz y x es))"
    by (rule Cons)
  finally show ?case by simp
qed

lemma strip_width_bounds: "2 \<le> strip_width" "nat (strip_width - 1) = 99999"
  by (simp_all add: strip_width_def)

lemma strip_hd: "\<exists>rest. collect_edges [''wall''] strip = Edge (0, 0) (1, 0) # rest"
proof -
  let ?first = "[Edge (0, 0) (1, 0), Edge (0, 1) (1, 1), Edge (0, 0) (0, 1)]"
  have "0 \<le> strip_width - 1" using strip_width_bounds(1) by simp
  from upto_rec1 [OF this] have r: "[0..strip_width - 1] = 0 # [1..strip_width - 1]" by simp
  have c: "collect_cell [''wall''] strip (strip_width, 1) 0 0 [] = ?first"
    using strip_width_bounds(1)
    by (simp add: collect_cell_def is_solid_iff strip_def set_insert_def Let_def make_edge_def)
  have "collect_edges [''wall''] strip
      = fold (collect_cell [''wall''] strip (strip_width, 1) 0) [1..strip_width - 1] ?first"
    unfolding collect_edges_def collect_row_def Let_def
    using c [unfolded strip_def] by (simp add: strip_def r)
  moreover have "prefix ?first
      (fold (collect_cell [''wall''] strip (strip_width, 1) 0) [1..strip_width - 1] ?first)"
    by (rule prefix_collect_cells)
  ultimately show ?thesis by (auto simp: prefix_def)
qed

lemma strip_solid: "solid_cell [''wall''] strip (x, y) = (0 \<le> x \<and> x < strip_width \<and> y = 0)"
  by (auto simp: solid_cell_def is_solid_iff strip_def)

lemma strip_top:
  "0 \<le> i \<Longrightarrow> i < strip_width \<Longrightarrow>
     Edge (i, 0) (i + 1, 0) \<in> set (collect_edges [''wall''] strip)"
  by (simp add: set_collect_boundary boundary_segment_def is_unit_segment_def
        adjoining_cells_def strip_solid)

lemma strip_neighbours:
  assumes j: "1 \<le> j" "j < strip_width"
    and m: "make_edge (j, 0) u \<in> set (collect_edges [''wall''] strip)"
  shows "u = (j - 1, 0) \<or> u = (j + 1, 0)"
proof -
  obtain a b where u: "u = (a, b)" by (cases u)
  from unit_step_collect [OF m] u
  have "u = (j - 1, 0) \<or> u = (j + 1, 0) \<or> u = (j, 1) \<or> u = (j, - 1)"
    unfolding unit_step_def by auto
  moreover have "make_edge (j, 0) (j, 1) \<notin> set (collect_edges [''wall''] strip)"
    using j by (simp add: make_edge_def set_collect_boundary boundary_segment_def
        is_unit_segment_def adjoining_cells_def strip_solid)
  moreover have "make_edge (j, 0) (j, - 1) \<notin> set (collect_edges [''wall''] strip)"
    using j by (simp add: make_edge_def set_collect_boundary boundary_segment_def
        is_unit_segment_def adjoining_cells_def strip_solid)
  ultimately show ?thesis using m by blast
qed

lemma strip_forced:
  assumes "1 \<le> j" "j \<le> strip_width"
    and "\<forall>i. j \<le> i \<and> i < strip_width \<longrightarrow> Edge (i, 0) (i + 1, 0) \<in> E"
    and "E \<subseteq> set (collect_edges [''wall''] strip)"
  shows "forced E (0, 0) (j - 1, 0) (j, 0) (map (\<lambda>i. (i, 0)) [j + 1..strip_width])"
  using assms
proof (induction "nat (strip_width - j)" arbitrary: j E)
  case 0
  then have "j = strip_width" by simp
  then show ?case by simp
next
  case (Suc k)
  then have lt: "j < strip_width" by simp
  then have "j + 1 \<le> strip_width" by simp
  from upto_rec1 [OF this]
  have r: "[j + 1..strip_width] = (j + 1) # [j + 1 + 1..strip_width]" .
  have me: "make_edge (j, 0) (j + 1, 0) = Edge (j, 0) (j + 1, 0)" by simp
  have inE: "Edge (j, 0) (j + 1, 0) \<in> E" using Suc.prems(3) lt by simp
  have uq: "\<forall>u. u \<noteq> (j - 1, 0) \<and> make_edge (j, 0) u \<in> E \<longrightarrow> u = (j + 1, 0)"
    using strip_neighbours [OF Suc.prems(1) lt] Suc.prems(4) by blast
  have rec: "forced (E - {Edge (j, 0) (j + 1, 0)}) (0, 0) (j + 1 - 1, 0) (j + 1, 0)
      (map (\<lambda>i. (i, 0)) [j + 1 + 1..strip_width])"
  proof (rule Suc.hyps(1))
    show "k = nat (strip_width - (j + 1))" using Suc.hyps(2) by simp
    show "1 \<le> j + 1" using Suc.prems(1) by simp
    show "j + 1 \<le> strip_width" using lt by simp
    show "\<forall>i. j + 1 \<le> i \<and> i < strip_width \<longrightarrow>
        Edge (i, 0) (i + 1, 0) \<in> E - {Edge (j, 0) (j + 1, 0)}"
      using Suc.prems(3) by auto
    show "E - {Edge (j, 0) (j + 1, 0)} \<subseteq> set (collect_edges [''wall''] strip)"
      using Suc.prems(4) by auto
  qed
  from rec have rec': "forced (E - {Edge (j, 0) (j + 1, 0)}) (0, 0) (j, 0) (j + 1, 0)
      (map (\<lambda>i. (i, 0)) [j + 1 + 1..strip_width])" by simp
  have j0: "(j, 0) \<noteq> (0, 0::int)" and jp: "(j + 1, 0::int) \<noteq> (j - 1, 0)"
    using Suc.prems(1) by auto
  show ?case
    unfolding r list.map forced.simps me
    using j0 jp inE uq rec' by blast
qed

lemma strip_chain_unfold:
  "strip_chain = [(0, 0), (1, 0)] @ map (\<lambda>i. (i, 0)) [1 + 1..strip_width]"
proof -
  have "0 \<le> strip_width" "0 + 1 \<le> strip_width" using strip_width_bounds(1) by simp_all
  from upto_rec1 [OF this(1)] upto_rec1 [OF this(2)]
  have "[0..strip_width] = 0 # 1 # [1 + 1..strip_width]" by simp
  then show ?thesis unfolding strip_chain_def by simp
qed

lemma strip_chain_ends:
  "hd strip_chain = (0, 0) \<and> last strip_chain = (strip_width, 0)
   \<and> length strip_chain = 100001"
proof -
  have "0 \<le> strip_width" using strip_width_bounds(1) by simp
  from upto_rec2 [OF this]
  have "last strip_chain = (strip_width, 0)" unfolding strip_chain_def by simp
  moreover have "hd strip_chain = (0, 0)" unfolding strip_chain_unfold by simp
  moreover have "length strip_chain = nat (strip_width + 1)" unfolding strip_chain_def by simp
  moreover have "nat (strip_width + 1) = 100001" by (simp add: strip_width_def)
  ultimately show ?thesis by simp
qed

lemma strip_first_walk:
  "\<exists>es'. walk (build_adj (collect_edges [''wall''] strip))
           (erase_edge (collect_edges [''wall''] strip) (0, 0) (1, 0)) (0, 0) (0, 0) (1, 0)
           [(0, 0), (1, 0)] = Some (es', strip_chain)"
proof -
  let ?es = "collect_edges [''wall''] strip"
  let ?path = "map (\<lambda>i. (i, 0::int)) [1 + 1..strip_width]"
  have f: "forced (set (erase_edge ?es (0, 0) (1, 0))) (0, 0) (1 - 1, 0) (1, 0) ?path"
  proof (rule strip_forced)
    show "(1::int) \<le> 1" by simp
    show "1 \<le> strip_width" using strip_width_bounds(1) by simp
    show "\<forall>i. 1 \<le> i \<and> i < strip_width \<longrightarrow>
        Edge (i, 0) (i + 1, 0) \<in> set (erase_edge ?es (0, 0) (1, 0))"
      using strip_top by (auto simp: make_edge_def)
    show "set (erase_edge ?es (0, 0) (1, 0)) \<subseteq> set ?es" by auto
  qed
  have a: "\<forall>u v. make_edge v u \<in> set (erase_edge ?es (0, 0) (1, 0))
      \<longrightarrow> u \<in> set (build_adj ?es v)"
    using build_adj_complete by auto
  have len: "length ?path = 99999"
  proof -
    have "length ?path = nat (strip_width - 1)" unfolding length_map length_upto by simp
    then show ?thesis using strip_width_bounds(2) by simp
  qed
  have "\<exists>es'. walk (build_adj ?es) (erase_edge ?es (0, 0) (1, 0)) (0, 0) (0, 0) (1, 0)
      [(0, 0), (1, 0)] = Some (es', [(0, 0), (1, 0)] @ ?path)
      \<and> set es' = set (erase_edge ?es (0, 0) (1, 0)) - set (chain_edges ((1, 0) # ?path))"
  proof (rule walk_forced [OF _ a])
    show "forced (set (erase_edge ?es (0, 0) (1, 0))) (0, 0) (0, 0) (1, 0) ?path"
      using f by simp
    show "?path \<noteq> []" using len by auto
    show "length [(0, 0), (1::int, 0::int)] + length ?path \<le> 100001" using len by simp
    show "last ?path = (0, 0) \<or> length [(0, 0), (1::int, 0::int)] + length ?path = 100001"
      using len by simp
  qed
  then show ?thesis unfolding strip_chain_unfold by blast
qed

subsection \<open>Unclosed chains\<close>

lemma first_walk_closes:
  assumes es: "es = startE # rest"
    and d: "distinct es"
    and prp: "\<forall>e \<in> set es. proper e"
    and adjc: "\<forall>u v. make_edge v u \<in> set es \<longrightarrow> u \<in> set (adj v)"
    and ev: "\<forall>v. even (degree es v)"
    and wk: "walk adj (erase_edge es (edge_a startE) (edge_b startE))
          (edge_a startE) (edge_a startE) (edge_b startE) [edge_a startE, edge_b startE]
          = Some (es', poly)"
  shows "distinct es' \<and> (last poly = edge_a startE \<or> 100000 < length poly)
     \<and> (last poly = edge_a startE \<longrightarrow> (\<forall>v. even (degree es' v)))"
proof -
  let ?a = "edge_a startE" and ?b = "edge_b startE"
  from prp es have pse: "proper startE" by simp
  with es have me: "make_edge ?a ?b = startE" and ab: "?a \<noteq> ?b"
    by (simp_all add: proper_def canonical_def)
  have in_es: "startE \<in> set es" using es by simp
  have par: "\<forall>v. odd (degree (erase_edge es ?a ?b) v) = (?b \<noteq> ?a \<and> (v = ?a \<or> v = ?b))"
  proof
    fix v
    from ev have "even (degree es v)" by blast
    moreover have "degree es v = degree (erase_edge es ?a ?b) v
        + (if ?a = v \<or> ?b = v then 1 else 0)"
      using degree_erase [OF d in_es, of v] me by (simp add: erase_edge_def)
    ultimately show "odd (degree (erase_edge es ?a ?b) v) = (?b \<noteq> ?a \<and> (v = ?a \<or> v = ?b))"
      using ab by auto
  qed
  show ?thesis
  proof (rule walk_closes [OF wk _ _ _ _ par])
    show "distinct (erase_edge es ?a ?b)" using d by (rule distinct_erase_edge)
    show "\<forall>e \<in> set (erase_edge es ?a ?b). proper e" using prp by simp
    show "\<forall>u v. make_edge v u \<in> set (erase_edge es ?a ?b) \<longrightarrow> u \<in> set (adj v)"
      using adjc by auto
    show "make_edge ?b ?a \<notin> set (erase_edge es ?a ?b)" by (simp add: make_edge_commute)
    show "[?a, ?b] \<noteq> [] \<and> last [?a, ?b] = ?b" by simp
  qed
qed

lemma layer_facts:
  assumes "iteration_order cn layer es"
  shows "distinct es" "\<forall>e \<in> set es. proper e" "\<forall>e \<in> set es. canonical e"
    "\<forall>u v. make_edge v u \<in> set es \<longrightarrow> u \<in> set (build_adj es v)"
    "\<forall>v. even (degree es v)"
  using assms proper_collect_edges canonical_collect_edges build_adj_complete
    even_degree_collect [OF assms]
  by (auto simp: iteration_order_def)

lemma keep_unclosed:
  "last poly \<noteq> hd poly \<Longrightarrow>
     keep_chain sor poly loops =
       (if 3 \<le> length poly then loops @ [resolve_winding sor poly] else loops)"
  by (simp add: keep_chain_def close_chain_def)

text \<open>
  Claim C1, as the code has it. A walk that ends without closing is dropped only when
  its chain has fewer than 3 vertices; a longer unclosed chain is handed to winding
  resolution and emitted like a closed loop. The first walk of a layer never ends for
  lack of a candidate: when it ends without closing, the guard has cut it at 100001
  vertices, and that chain is the first chain the layer emits.
\<close>

theorem C1_unclosed_walk_emitted:
  assumes io: "iteration_order cn layer es" and es: "es = startE # rest"
    and wk: "walk (build_adj es) (erase_edge es (edge_a startE) (edge_b startE))
          (edge_a startE) (edge_a startE) (edge_b startE) [edge_a startE, edge_b startE]
          = Some (es', poly)"
    and nc: "last poly \<noteq> hd poly"
  shows "length poly = 100001
     \<and> keep_chain sor poly [] = [resolve_winding sor poly]
     \<and> (\<exists>rest'. layer_loops sor es = Some (resolve_winding sor poly # rest'))
     \<and> (\<forall>p loops. last p \<noteq> hd p \<longrightarrow>
           keep_chain sor p loops
             = (if 3 \<le> length p then loops @ [resolve_winding sor p] else loops))"
proof -
  note lf = layer_facts [OF io]
  note fw = first_walk [OF es lf(3) wk]
  from first_walk_closes [OF es lf(1,2,4,5) wk] nc fw
  have "100000 < length poly" by auto
  moreover have "length poly \<le> 100001" using walk_length [OF wk] by simp
  ultimately have len: "length poly = 100001" by simp
  with nc have k: "keep_chain sor poly [] = [resolve_winding sor poly]"
    by (simp add: keep_unclosed)
  from walk_loops_first [OF es lf(3) wk, of sor] k
  have "\<exists>rest'. layer_loops sor es = Some (resolve_winding sor poly # rest')"
    by (auto simp: layer_loops_def prefix_def)
  with len k keep_unclosed show ?thesis by blast
qed

lemma strip_loops:
  "\<exists>rest. layer_loops sor (collect_edges [''wall''] strip)
     = Some (resolve_winding sor strip_chain # rest)"
proof -
  obtain rest where es: "collect_edges [''wall''] strip = Edge (0, 0) (1, 0) # rest"
    using strip_hd by blast
  obtain es' where w: "walk (build_adj (collect_edges [''wall''] strip))
           (erase_edge (collect_edges [''wall''] strip) (0, 0) (1, 0)) (0, 0) (0, 0) (1, 0)
           [(0, 0), (1, 0)] = Some (es', strip_chain)"
    using strip_first_walk by blast
  have k: "keep_chain sor strip_chain [] = [resolve_winding sor strip_chain]"
    using strip_chain_ends strip_width_bounds(1) by (simp add: keep_unclosed)
  have can: "\<forall>e \<in> set (collect_edges [''wall''] strip). canonical e"
    using canonical_collect_edges by blast
  from walk_loops_first [OF es can, of "build_adj (collect_edges [''wall''] strip)" es' strip_chain sor]
    w k show ?thesis
    by (auto simp: layer_loops_def prefix_def)
qed

text \<open>
  Claim C1 fails on the one-row layer of 100000 solid cells. The scan inserts the edge
  from \<open>(0, 0)\<close> to \<open>(1, 0)\<close> first; the walk from it runs along the top of the row
  and is cut by the guard at the corner \<open>(100000, 0)\<close>, without closing; its chain of
  100001 corners is kept and is the first loop emitted, as it stands or reversed,
  whichever way the winding test answers.
\<close>

theorem C1_counterexample:
  "hd (collect_edges [''wall''] strip) = Edge (0, 0) (1, 0)
   \<and> (\<exists>es'. walk (build_adj (collect_edges [''wall''] strip))
           (erase_edge (collect_edges [''wall''] strip) (0, 0) (1, 0)) (0, 0) (0, 0) (1, 0)
           [(0, 0), (1, 0)] = Some (es', strip_chain))
   \<and> last strip_chain \<noteq> hd strip_chain
   \<and> (\<exists>rest. layer_loops (\<lambda>_. True) (collect_edges [''wall''] strip)
         = Some (strip_chain # rest))
   \<and> (\<exists>rest. layer_loops (\<lambda>_. False) (collect_edges [''wall''] strip)
         = Some (rev strip_chain # rest))"
proof -
  have "hd (collect_edges [''wall''] strip) = Edge (0, 0) (1, 0)"
    using strip_hd by auto
  moreover have "last strip_chain \<noteq> hd strip_chain"
    using strip_chain_ends strip_width_bounds(1) by simp
  moreover have "\<exists>rest. layer_loops (\<lambda>_. True) (collect_edges [''wall''] strip)
         = Some (strip_chain # rest)"
    using strip_loops [of "\<lambda>_. True"] by (simp add: resolve_winding_def)
  moreover have "\<exists>rest. layer_loops (\<lambda>_. False) (collect_edges [''wall''] strip)
         = Some (rev strip_chain # rest)"
    using strip_loops [of "\<lambda>_. False"] by (simp add: resolve_winding_def)
  ultimately show ?thesis using strip_first_walk by blast
qed

text \<open>
  The hypotheses of the C1 theorem hold on the one-row layer, in the iteration order of
  the scan.
\<close>

theorem C1_witness:
  "iteration_order [''wall''] strip (collect_edges [''wall''] strip)
   \<and> last strip_chain \<noteq> hd strip_chain
   \<and> length strip_chain = 100001
   \<and> keep_chain (\<lambda>_. True) strip_chain [] = [strip_chain]"
proof -
  obtain rest where es: "collect_edges [''wall''] strip = Edge (0, 0) (1, 0) # rest"
    using strip_hd by blast
  obtain es' where w: "walk (build_adj (collect_edges [''wall''] strip))
           (erase_edge (collect_edges [''wall''] strip) (0, 0) (1, 0)) (0, 0) (0, 0) (1, 0)
           [(0, 0), (1, 0)] = Some (es', strip_chain)"
    using strip_first_walk by blast
  have nc: "last strip_chain \<noteq> hd strip_chain"
    using strip_chain_ends strip_width_bounds(1) by simp
  have w': "walk (build_adj (collect_edges [''wall''] strip))
      (erase_edge (collect_edges [''wall''] strip) (edge_a (Edge (0, 0) (1, 0)))
        (edge_b (Edge (0, 0) (1, 0))))
      (edge_a (Edge (0, 0) (1, 0))) (edge_a (Edge (0, 0) (1, 0))) (edge_b (Edge (0, 0) (1, 0)))
      [edge_a (Edge (0, 0) (1, 0)), edge_b (Edge (0, 0) (1, 0))] = Some (es', strip_chain)"
    using w by simp
  from C1_unclosed_walk_emitted [OF iteration_order_collect es w' nc, of "\<lambda>_. True"]
    iteration_order_collect nc
  show ?thesis by (simp add: resolve_winding_def)
qed

text \<open>
  Claim C5, as the code has it. For every emitted chain the edges between consecutive
  vertices, without the wrap, are edges of the original edge set, and no such edge
  belongs to two emitted chains. When no emitted chain has more than 100000 vertices,
  the same holds with the wrap edge from the last vertex to the first included.
\<close>

theorem C5_loop_edges:
  assumes io: "iteration_order cn layer es"
    and ll: "layer_loops sor es = Some loops"
  shows "(\<forall>l \<in> set loops. set (chain_edges l) \<subseteq> set es)
     \<and> edge_disjoint chain_edges loops
     \<and> ((\<forall>l \<in> set loops. length l \<le> 100000) \<longrightarrow>
          (\<forall>l \<in> set loops. set (loop_edges l) \<subseteq> set es)
          \<and> edge_disjoint loop_edges loops)"
proof -
  note lf = layer_facts [OF io]
  have 1: "(\<forall>l \<in> set loops. set (chain_edges l) \<subseteq> set es) \<and> edge_disjoint chain_edges loops"
    using walk_loops_chain_edges [OF ll [unfolded layer_loops_def] lf(3), of "set es"]
    by (simp add: edge_disjoint_def)
  have 2: "(\<forall>l \<in> set loops. set (loop_edges l) \<subseteq> set es) \<and> edge_disjoint loop_edges loops"
    if "\<forall>l \<in> set loops. length l \<le> 100000"
    using walk_loops_closed [where E = "set es", OF ll [unfolded layer_loops_def] lf(1,2) _ lf(4,5) _ _ that]
    by (simp add: edge_disjoint_def)
  from 1 2 show ?thesis by blast
qed

text \<open>
  The C5 theorem on the 3 by 3 block: the twelve edges of its loop, wrap included, are
  collected edges.
\<close>

theorem C5_witness:
  "iteration_order [''wall''] block3 (collect_edges [''wall''] block3)
   \<and> layer_loops (\<lambda>_. True) (collect_edges [''wall''] block3) = Some [block_cycle]
   \<and> set (loop_edges block_cycle) \<subseteq> set (collect_edges [''wall''] block3)"
  using C5_loop_edges [OF iteration_order_collect block3_loops] iteration_order_collect
    block3_loops
  by (simp add: block_cycle_def)

text \<open>
  Claim C5 fails on the one-row layer of 100000 solid cells: the first emitted chain runs
  from \<open>(0, 0)\<close> to \<open>(100000, 0)\<close>, and the wrap edge between these two corners is not
  an edge of the collected set, whichever way the winding test answers.
\<close>

theorem C5_counterexample:
  "(\<exists>rest. layer_loops (\<lambda>_. True) (collect_edges [''wall''] strip)
         = Some (strip_chain # rest))
   \<and> (\<exists>rest. layer_loops (\<lambda>_. False) (collect_edges [''wall''] strip)
         = Some (rev strip_chain # rest))
   \<and> Edge (0, 0) (strip_width, 0) \<in> set (loop_edges strip_chain)
   \<and> Edge (0, 0) (strip_width, 0) \<in> set (loop_edges (rev strip_chain))
   \<and> Edge (0, 0) (strip_width, 0) \<notin> set (collect_edges [''wall''] strip)"
proof -
  have ne: "strip_chain \<noteq> []" using strip_chain_ends by auto
  have w: "make_edge (last strip_chain) (hd strip_chain) = Edge (0, 0) (strip_width, 0)"
    using strip_chain_ends strip_width_bounds(1) by (simp add: make_edge_def)
  have 1: "Edge (0, 0) (strip_width, 0) \<in> set (loop_edges strip_chain)"
    using set_loop_edges [OF ne] w by simp
  then have 2: "Edge (0, 0) (strip_width, 0) \<in> set (loop_edges (rev strip_chain))"
    by (simp add: set_loop_edges_rev)
  have 3: "Edge (0, 0) (strip_width, 0) \<notin> set (collect_edges [''wall''] strip)"
    using strip_width_bounds(1)
    by (simp add: set_collect_boundary boundary_segment_def is_unit_segment_def)
  have "\<exists>rest. layer_loops (\<lambda>_. True) (collect_edges [''wall''] strip)
         = Some (strip_chain # rest)"
    using strip_loops [of "\<lambda>_. True"] by (simp add: resolve_winding_def)
  moreover have "\<exists>rest. layer_loops (\<lambda>_. False) (collect_edges [''wall''] strip)
         = Some (rev strip_chain # rest)"
    using strip_loops [of "\<lambda>_. False"] by (simp add: resolve_winding_def)
  ultimately show ?thesis using 1 2 3 by blast
qed

subsection \<open>The 3 by 3 block\<close>

lemma block_checks: "list_all block_check (collect_edges [''wall''] block3)"
  by code_simp


lemma walk_loops_Nil: "walk_loops sor adj [] loops = Some loops"
  by (rule trans [OF walk_loops.simps]) simp

lemma walk_loops_Cons:
  assumes "es = startE # rest"
    and "walk adj (erase_edge es (edge_a startE) (edge_b startE))
          (edge_a startE) (edge_a startE) (edge_b startE) [edge_a startE, edge_b startE]
          = Some (es', poly)"
  shows "walk_loops sor adj es loops = walk_loops sor adj es' (keep_chain sor poly loops)"
  using assms by (intro trans [OF walk_loops.simps]) (simp add: Let_def)

lemma neighbours_iff:
  assumes "\<forall>e \<in> set es. canonical e"
  shows "(make_edge v u \<in> set es) = (u \<in> set (neighbours es v))"
proof
  let ?e = "make_edge v u"
  assume m: "?e \<in> set es"
  from make_edge_ends [of v u] show "u \<in> set (neighbours es v)"
  proof
    assume c: "edge_a ?e = v \<and> edge_b ?e = u"
    with m have "edge_b ?e \<in> edge_b ` {e \<in> set es. edge_a e = v}" by blast
    with c show ?thesis by (simp add: neighbours_def)
  next
    assume c: "edge_a ?e = u \<and> edge_b ?e = v"
    with m have "edge_a ?e \<in> edge_a ` {e \<in> set es. edge_b e = v}" by blast
    with c show ?thesis by (simp add: neighbours_def)
  qed
next
  assume "u \<in> set (neighbours es v)"
  then have "u \<in> edge_b ` {e \<in> set es. edge_a e = v} \<or> u \<in> edge_a ` {e \<in> set es. edge_b e = v}"
    by (simp add: neighbours_def)
  then obtain e where e: "e \<in> set es"
    and c: "edge_a e = v \<and> edge_b e = u \<or> edge_b e = v \<and> edge_a e = u"
    by blast
  from e assms have "canonical e" by blast
  with c have "make_edge v u = e" using canonical_ends by blast
  with e show "make_edge v u \<in> set es" by simp
qed

lemma forced_list_forced:
  assumes "\<forall>e \<in> set es. canonical e" "forced_list es start prev cur path"
  shows "forced (set es) start prev cur path"
  using assms
proof (induction path arbitrary: es prev cur)
  case Nil
  then show ?case by simp
next
  case (Cons n path)
  from Cons.prems(2) have a: "cur \<noteq> start" "n \<noteq> prev" "make_edge cur n \<in> set es"
    and l: "list_all (\<lambda>u. u = prev \<or> u = n) (neighbours es cur)"
    and f: "forced_list (removeAll (make_edge cur n) es) start cur n path" by simp_all
  have "\<forall>e \<in> set (removeAll (make_edge cur n) es). canonical e" using Cons.prems(1) by simp
  from Cons.IH [OF this f]
  have r: "forced (set es - {make_edge cur n}) start cur n path" by simp
  have uq: "\<forall>u. u \<noteq> prev \<and> make_edge cur u \<in> set es \<longrightarrow> u = n"
  proof (intro allI impI)
    fix u assume u: "u \<noteq> prev \<and> make_edge cur u \<in> set es"
    then have "u \<in> set (neighbours es cur)" using neighbours_iff [OF Cons.prems(1)] by blast
    with l have "u = prev \<or> u = n" unfolding list_all_iff by blast
    with u show "u = n" by blast
  qed
  show ?case unfolding forced.simps using a r uq by blast
qed

lemma collect_edges_cong:
  assumes "\<forall>c. solid_cell cn layer c = solid_cell cn' layer' c"
  shows "set (collect_edges cn layer) = set (collect_edges cn' layer')"
proof -
  from assms have "solid_cell cn layer = solid_cell cn' layer'" by (intro ext) blast
  then show ?thesis by (simp add: set_collect_boundary boundary_segment_def)
qed

lemma block3_solid:
  "solid_cell [''wall''] block3 (x, y) = (0 \<le> x \<and> x < 3 \<and> 0 \<le> y \<and> y < 3)"
  by (auto simp: solid_cell_def is_solid_iff block3_def)

lemma rotations_props:
  assumes "m \<in> set (rotations xs @ rotations (rev xs))"
  shows "length m = length xs \<and> set m = set xs"
proof -
  from assms obtain n where "m = rotate n xs \<or> m = rotate n (rev xs)"
    unfolding rotations_def by auto
  then show ?thesis by auto
qed

lemma block_walk:
  assumes blk: "\<forall>x y. solid_cell cn layer (x, y) = (0 \<le> x \<and> x < 3 \<and> 0 \<le> y \<and> y < 3)"
    and io: "iteration_order cn layer es"
  shows "\<exists>l. layer_loops sor es = Some [l]
     \<and> l \<in> set (rotations block_cycle @ rotations (rev block_cycle))"
proof -
  let ?B = "collect_edges [''wall''] block3"
  let ?R = "rotations block_cycle @ rotations (rev block_cycle)"
  have "\<forall>c. solid_cell cn layer c = solid_cell [''wall''] block3 c"
    using blk block3_solid by auto
  from collect_edges_cong [OF this] io have se: "set es = set ?B"
    by (simp add: iteration_order_def)
  have "?B \<noteq> []" by (simp add: block3_edges)
  with se obtain startE rest where es: "es = startE # rest" by (cases es) auto
  let ?a = "edge_a startE" and ?b = "edge_b startE"
  let ?p = "follow block_cycle ?a ?b"
  let ?l = "butlast (?a # ?b # ?p)"
  from es se have inB: "startE \<in> set ?B" by auto
  with block_checks have "block_check startE" by (simp add: list_all_iff)
  then have fl: "forced_list (removeAll startE ?B) ?a ?a ?b ?p"
    and pne: "?p \<noteq> []" and lp: "last ?p = ?a" and len: "length ?p = 11"
    and cov: "list_all (\<lambda>x. x \<in> set (chain_edges (?b # ?p))) (removeAll startE ?B)"
    and lR: "?l \<in> set ?R" and rR: "rev ?l \<in> set ?R"
    unfolding block_check_def Let_def by blast+
  have canB: "\<forall>e \<in> set ?B. canonical e" using canonical_collect_edges by blast
  with inB have me: "make_edge ?a ?b = startE" by (simp add: canonical_def)
  have can: "\<forall>e \<in> set es. canonical e" using se canB by simp
  have ser: "set (erase_edge es ?a ?b) = set (removeAll startE ?B)"
    using se me by simp
  have "forced (set (removeAll startE ?B)) ?a ?a ?b ?p"
    using forced_list_forced [OF _ fl] canB by simp
  then have f: "forced (set (erase_edge es ?a ?b)) ?a ?a ?b ?p" using ser by simp
  have a: "\<forall>u v. make_edge v u \<in> set (erase_edge es ?a ?b) \<longrightarrow> u \<in> set (build_adj es v)"
    using build_adj_complete by auto
  have "\<exists>es'. walk (build_adj es) (erase_edge es ?a ?b) ?a ?a ?b [?a, ?b]
        = Some (es', [?a, ?b] @ ?p)
      \<and> set es' = set (erase_edge es ?a ?b) - set (chain_edges (?b # ?p))"
    using len lp by (intro walk_forced [OF f a pne]) simp_all
  then obtain es' where w: "walk (build_adj es) (erase_edge es ?a ?b) ?a ?a ?b [?a, ?b]
        = Some (es', ?a # ?b # ?p)"
    and s': "set es' = set (erase_edge es ?a ?b) - set (chain_edges (?b # ?p))" by auto
  from s' ser cov have "set es' = {}" by (auto simp: list_all_iff)
  then have e': "es' = []" by simp
  have cl: "close_chain (?a # ?b # ?p) = ?l"
    using lp pne by (simp add: close_chain_def)
  have l12: "length ?l = 12" using len pne by simp
  with cl have k: "keep_chain sor (?a # ?b # ?p) [] = [resolve_winding sor ?l]"
    by (simp add: keep_chain_def)
  have "walk_loops sor (build_adj es) es [] = Some [resolve_winding sor ?l]"
    unfolding walk_loops_Cons [OF es w] e' k by (rule walk_loops_Nil)
  moreover have "resolve_winding sor ?l \<in> set ?R"
    using lR rR by (simp add: resolve_winding_def)
  ultimately show ?thesis unfolding layer_loops_def by blast
qed

text \<open>
  Claim C2, as the code has it. On a layer whose solid cells are exactly the 3 by 3 block
  at the origin, every iteration order of the edge set and every answer of the winding test
  give exactly one loop; it has 12 vertices, one for each unit step of the boundary, and
  is a rotation of the boundary cycle or of its reverse. The four corners \<open>(0, 0)\<close>,
  \<open>(3, 0)\<close>, \<open>(3, 3)\<close>, \<open>(0, 3)\<close> are among them.
\<close>

theorem C2_block_loop:
  assumes "\<forall>x y. solid_cell cn layer (x, y) = (0 \<le> x \<and> x < 3 \<and> 0 \<le> y \<and> y < 3)"
    and "iteration_order cn layer es"
  shows "\<exists>l. layer_loops sor es = Some [l]
     \<and> l \<in> set (rotations block_cycle @ rotations (rev block_cycle))
     \<and> length l = 12
     \<and> set l = set block_cycle
     \<and> {(0, 0), (3, 0), (3, 3), (0, 3)} \<subseteq> set l"
proof -
  from block_walk [OF assms, of sor] obtain l where l: "layer_loops sor es = Some [l]"
    and r: "l \<in> set (rotations block_cycle @ rotations (rev block_cycle))" by blast
  from rotations_props [OF r] have "length l = 12" "set l = set block_cycle"
    by (simp_all add: block_cycle_def)
  moreover from this have "{(0, 0), (3, 0), (3, 3), (0, 3)} \<subseteq> set l"
    by (simp add: block_cycle_def)
  ultimately show ?thesis using l r by blast
qed

text \<open>
  The C2 theorem on the layer \<open>block3\<close>, in the iteration order of the scan.
\<close>

theorem C2_witness:
  "iteration_order [''wall''] block3 (collect_edges [''wall''] block3)
   \<and> solid_cell [''wall''] block3 (1, 1)
   \<and> (\<exists>l. layer_loops (\<lambda>_. False) (collect_edges [''wall''] block3) = Some [l]
         \<and> length l = 12)"
proof -
  have "\<forall>x y. solid_cell [''wall''] block3 (x, y) = (0 \<le> x \<and> x < 3 \<and> 0 \<le> y \<and> y < 3)"
    using block3_solid by blast
  from C2_block_loop [OF this iteration_order_collect, of "\<lambda>_. False"]
    iteration_order_collect block3_solid [of 1 1]
  show ?thesis by auto
qed

text \<open>
  Claim C2 fails on the layer \<open>block3\<close>: its one loop has 12 vertices, not 4, whichever
  way the winding test answers.
\<close>

theorem C2_counterexample:
  "layer_loops (\<lambda>_. True) (collect_edges [''wall''] block3) = Some [block_cycle]
   \<and> layer_loops (\<lambda>_. False) (collect_edges [''wall''] block3) = Some [rev block_cycle]
   \<and> length block_cycle = 12
   \<and> length (rev block_cycle) = 12"
proof -
  have "layer_loops (\<lambda>_. False) (collect_edges [''wall''] block3) = Some [rev block_cycle]"
    unfolding block3_edges block_cycle_def
    by (simp add: walker_eval cong: if_weak_cong option.case_cong_weak list.case_cong_weak)
  then show ?thesis using block3_loops by (simp add: block_cycle_def)
qed

subsection \<open>Chain emission\<close>

lemma fold_snoc: "fold (\<lambda>x acc. acc @ [f x]) xs acc0 = acc0 @ map f xs"
  by (induction xs arbitrary: acc0) simp_all

lemma int_cast_small: "n < 2 ^ 31 \<Longrightarrow> int_cast n = int n"
  by (simp add: int_cast_def)

text \<open>
  Claim C10. For every loop handed to the physics chain, the materials are as many as the
  vertices, which are as many as the corners of the loop; the two counts passed along are
  equal, and equal to that number for a loop of fewer than \<open>2^31\<close> corners; and every
  material has friction 0.1 and restitution 0.1.
\<close>

theorem C10_materials:
  "length (materials (make_chain world_point dflt loop))
     = length (points (make_chain world_point dflt loop))
   \<and> length (points (make_chain world_point dflt loop)) = length loop
   \<and> materialCount (make_chain world_point dflt loop) = count (make_chain world_point dflt loop)
   \<and> (length loop < 2 ^ 31 \<longrightarrow>
        materialCount (make_chain world_point dflt loop) = int (length loop))
   \<and> (\<forall>m \<in> set (materials (make_chain world_point dflt loop)).
        friction m = 0.1 \<and> restitution m = 0.1)"
proof -
  let ?mat = "dflt\<lparr>friction := 0.1, restitution := 0.1\<rparr>"
  let ?verts = "fold (\<lambda>p verts. verts @ [world_point p]) loop []"
  let ?mats = "fold (\<lambda>i mats. mats @ [?mat]) [0..<length ?verts] []"
  have v: "length ?verts = length loop"
    by (simp add: fold_snoc)
  have m: "length ?mats = length ?verts"
    by (simp add: fold_snoc)
  have s: "set ?mats \<subseteq> {?mat}"
    by (auto simp: fold_snoc)
  have c: "make_chain world_point dflt loop =
      \<lparr>points = ?verts, count = int_cast (length ?verts),
       materials = ?mats, materialCount = int_cast (length ?mats), isLoop = True\<rparr>"
    by (simp add: make_chain_def Let_def)
  have "\<forall>m \<in> set ?mats. friction m = 0.1 \<and> restitution m = 0.1"
    using s by auto
  with v m show ?thesis unfolding c by (simp add: int_cast_small)
qed

theorem C10_witness:
  "length (materials (make_chain (\<lambda>p. p) \<lparr>friction = 0.6, restitution = 0\<rparr>
       [(0, 0), (1, 0), (1, 1)])) = 3
   \<and> materialCount (make_chain (\<lambda>p. p) \<lparr>friction = 0.6, restitution = 0\<rparr>
       [(0, 0), (1, 0), (1, 1)]) = 3
   \<and> friction (hd (materials (make_chain (\<lambda>p. p) \<lparr>friction = 0.6, restitution = 0\<rparr>
       [(0, 0), (1, 0), (1, 1)]))) = 0.1"
proof -
  let ?cd = "make_chain (\<lambda>p. p) \<lparr>friction = 0.6, restitution = 0\<rparr> [(0, 0), (1, 0), (1::int, 1::int)]"
  note t = C10_materials [of "\<lambda>p. p" "\<lparr>friction = 0.6, restitution = 0\<rparr>" "[(0, 0), (1, 0), (1, 1)]"]
  from t have l: "length (materials ?cd) = 3" and c: "materialCount ?cd = 3" by simp_all
  then have "materials ?cd \<noteq> []" by auto
  then have "hd (materials ?cd) \<in> set (materials ?cd)" by simp
  with t have "friction (hd (materials ?cd)) = 0.1" by blast
  with l c show ?thesis by simp
qed

end
